theory Spec2Isabelle
  imports Main
begin

section \<open>Internal pages of the B+Tree index\<close>

text \<open>
  The development follows \<^verbatim>\<open>b_plus_tree_internal_page.cpp\<close>. An internal page is a
  header followed by a slot array of (key, child page id) pairs. The value type of an
  internal page is always \<^verbatim>\<open>page_id_t\<close> (the file instantiates the template with it
  only), the key type stays a parameter, and the comparator is passed to \<open>Lookup\<close> as
  in the source: a function returning a negative, zero or positive \<^verbatim>\<open>int\<close>.

  The slot array is the raw memory behind the header: C++ indexes it with an \<^verbatim>\<open>int\<close>
  and checks nothing, so it is a function from \<open>int\<close> to slots. Slots at or above the
  current size hold whatever was written there before. Sizes and indices are \<open>int\<close>:
  they are bounded by the number of slots of a page, far below the 32-bit range.
\<close>

type_synonym page_id_t = int

datatype IndexPageType = INVALID_INDEX_PAGE | LEAF_PAGE | INTERNAL_PAGE

datatype error = AssertionFailed | NullPointer

record 'k page =
  page_kind :: IndexPageType
  current_size :: int
  max_size :: int
  page_id :: page_id_t
  parent_page_id :: page_id_t
  array :: "int \<Rightarrow> 'k \<times> page_id_t"

text \<open>
  Modelled from the spec: the accessors of the common page header
  (\<^verbatim>\<open>b_plus_tree_page.h\<close> is not among the sources). The spec gives the header as
  page kind, current size, max size, page id and parent page id.
\<close>

definition GetSize :: "'k page \<Rightarrow> int" where
  "GetSize p = current_size p"

definition GetMaxSize :: "'k page \<Rightarrow> int" where
  "GetMaxSize p = max_size p"

definition GetPageId :: "'k page \<Rightarrow> page_id_t" where
  "GetPageId p = page_id p"

definition GetParentPageId :: "'k page \<Rightarrow> page_id_t" where
  "GetParentPageId p = parent_page_id p"

definition IsLeafPage :: "'k page \<Rightarrow> bool" where
  "IsLeafPage p = (page_kind p = LEAF_PAGE)"

definition IncreaseSize :: "'k page \<Rightarrow> int \<Rightarrow> 'k page" where
  "IncreaseSize p amount = p\<lparr>current_size := current_size p + amount\<rparr>"

text \<open>C++ integer division truncates towards zero.\<close>

definition c_div :: "int \<Rightarrow> int \<Rightarrow> int" where
  "c_div a b = sgn a * sgn b * (\<bar>a\<bar> div \<bar>b\<bar>)"

text \<open>The logical content of a page: the slots below the current size, in order.\<close>

definition slots :: "'k page \<Rightarrow> ('k \<times> page_id_t) list" where
  "slots p = map (\<lambda>i. array p (int i)) [0 ..< nat (GetSize p)]"

subsection \<open>Helper methods\<close>

definition KeyAt :: "'k page \<Rightarrow> int \<Rightarrow> error + 'k" where
  "KeyAt p index =
     (if 0 \<le> index \<and> index < GetSize p then Inr (fst (array p index))
      else Inl AssertionFailed)"

definition SetKeyAt :: "'k page \<Rightarrow> int \<Rightarrow> 'k \<Rightarrow> error + 'k page" where
  "SetKeyAt p index key =
     (if 0 \<le> index \<and> index < GetSize p
      then Inr (p\<lparr>array := (array p)(index := (key, snd (array p index)))\<rparr>)
      else Inl AssertionFailed)"

function ValueIndex_loop :: "'k page \<Rightarrow> page_id_t \<Rightarrow> int \<Rightarrow> int" where
  "ValueIndex_loop p val i =
     (if i < GetSize p
      then (if snd (array p i) = val then i else ValueIndex_loop p val (i + 1))
      else GetSize p)"
  by pat_completeness auto
termination
  by (relation "measure (\<lambda>(p, val, i). nat (GetSize p - i))") auto

definition ValueIndex :: "'k page \<Rightarrow> page_id_t \<Rightarrow> int" where
  "ValueIndex p val = ValueIndex_loop p val 0"

definition ValueAt :: "'k page \<Rightarrow> int \<Rightarrow> error + page_id_t" where
  "ValueAt p index =
     (if 0 \<le> index \<and> index < GetSize p then Inr (snd (array p index))
      else Inl AssertionFailed)"

subsection \<open>Lookup\<close>

function Lookup_loop ::
  "'k page \<Rightarrow> 'k \<Rightarrow> ('k \<Rightarrow> 'k \<Rightarrow> int) \<Rightarrow> int \<Rightarrow> int \<Rightarrow> page_id_t" where
  "Lookup_loop p key comparator low high =
     (if low < high \<and> low + 1 \<noteq> high
      then (if comparator key (fst (array p (low + c_div (high - low) 2))) < 0
            then Lookup_loop p key comparator low (low + c_div (high - low) 2)
            else if comparator key (fst (array p (low + c_div (high - low) 2))) > 0
            then Lookup_loop p key comparator (low + c_div (high - low) 2) high
            else snd (array p (low + c_div (high - low) 2)))
      else snd (array p low))"
  by pat_completeness auto
termination
  by (relation "measure (\<lambda>(p, key, comparator, low, high). nat (high - low))")
     (auto simp: c_div_def)

definition Lookup :: "'k page \<Rightarrow> 'k \<Rightarrow> ('k \<Rightarrow> 'k \<Rightarrow> int) \<Rightarrow> error + page_id_t" where
  "Lookup p key comparator =
     (if GetSize p > 1
      then (if comparator key (fst (array p 1)) < 0 then Inr (snd (array p 0))
            else if comparator key (fst (array p (GetSize p - 1))) \<ge> 0
            then Inr (snd (array p (GetSize p - 1)))
            else Inr (Lookup_loop p key comparator 1 (GetSize p - 1)))
      else Inl AssertionFailed)"

subsection \<open>Insertion\<close>

definition PopulateNewRoot ::
  "'k page \<Rightarrow> page_id_t \<Rightarrow> 'k \<Rightarrow> page_id_t \<Rightarrow> error + 'k page" where
  "PopulateNewRoot p old_value new_key new_value =
     (if GetSize p = 1
      then Inr (IncreaseSize
                  (p\<lparr>array := ((array p)(0 := (fst (array p 0), old_value)))
                                  (1 := (new_key, new_value))\<rparr>) 1)
      else Inl AssertionFailed)"

text \<open>
  The loop of \<open>InsertNodeAfter\<close> runs \<open>i\<close> from the size down to 1; on a match it
  writes the new pair at \<open>i\<close>, increases the size and breaks, otherwise it copies slot
  \<open>i - 1\<close> to slot \<open>i\<close>. When no slot matches, every slot has been copied one to the
  right and the size is unchanged.
\<close>

function InsertNodeAfter_loop ::
  "'k page \<Rightarrow> page_id_t \<Rightarrow> 'k \<Rightarrow> page_id_t \<Rightarrow> int \<Rightarrow> 'k page" where
  "InsertNodeAfter_loop p old_value new_key new_value i =
     (if i > 0
      then (if snd (array p (i - 1)) = old_value
            then IncreaseSize (p\<lparr>array := (array p)(i := (new_key, new_value))\<rparr>) 1
            else InsertNodeAfter_loop (p\<lparr>array := (array p)(i := array p (i - 1))\<rparr>)
                   old_value new_key new_value (i - 1))
      else p)"
  by pat_completeness auto
termination
  by (relation "measure (\<lambda>(p, old_value, new_key, new_value, i). nat i)") auto

text \<open>The result is the page after the call and the returned size.\<close>

definition InsertNodeAfter ::
  "'k page \<Rightarrow> page_id_t \<Rightarrow> 'k \<Rightarrow> page_id_t \<Rightarrow> 'k page \<times> int" where
  "InsertNodeAfter p old_value new_key new_value =
     (let p' = InsertNodeAfter_loop p old_value new_key new_value (GetSize p)
      in (p', GetSize p'))"

subsection \<open>Remove\<close>

text \<open>
  The loop counts \<open>i\<close> from \<open>index\<close> to the size minus two, and its body is
  \<^verbatim>\<open>array[index] = array[index + 1]\<close>: it reads and writes at \<open>index\<close>, not at \<open>i\<close>.
\<close>

function Remove_loop :: "'k page \<Rightarrow> int \<Rightarrow> int \<Rightarrow> 'k page" where
  "Remove_loop p index i =
     (if i < GetSize p - 1
      then Remove_loop (p\<lparr>array := (array p)(index := array p (index + 1))\<rparr>) index (i + 1)
      else p)"
  by pat_completeness auto
termination
  by (relation "measure (\<lambda>(p, index, i). nat (GetSize p - 1 - i))")
     (auto simp: GetSize_def)

definition Remove :: "'k page \<Rightarrow> int \<Rightarrow> error + 'k page" where
  "Remove p index =
     (if 0 \<le> index \<and> index < GetSize p
      then Inr (IncreaseSize (Remove_loop p index index) (- 1))
      else Inl AssertionFailed)"

definition RemoveAndReturnOnlyChild :: "'k page \<Rightarrow> error + ('k page \<times> page_id_t)" where
  "RemoveAndReturnOnlyChild p =
     (let p' = IncreaseSize p (- 1)
      in if GetSize p' = 1
         then (case ValueAt p' 0 of Inl e \<Rightarrow> Inl e | Inr v \<Rightarrow> Inr (p', v))
         else Inl AssertionFailed)"

section \<open>The buffer pool\<close>

text \<open>
  Modelled from the spec: the buffer pool manager (its class is not among the sources).
  The spec gives \<^verbatim>\<open>fetch(page_id)\<close>, returning the page or null, and
  \<^verbatim>\<open>unpin(page_id, is_dirty)\<close>, with a pin count per page that is incremented on fetch
  and decremented on unpin. The pool records the calls made to it, in order.

  Every tree page lives in a frame of the pool, so a pointer to a page
  (\<^verbatim>\<open>this\<close>, \<^verbatim>\<open>recipient\<close>, the fetched parent) is the id under which the pool holds
  the page. Two pointers alias exactly when the ids are equal.
\<close>

datatype bpm_call = Fetch page_id_t | Unpin page_id_t bool

record 'k BufferPoolManager =
  pages :: "page_id_t \<Rightarrow> 'k page option"
  pin_count :: "page_id_t \<Rightarrow> nat"
  calls :: "bpm_call list"

definition FetchPage ::
  "'k BufferPoolManager \<Rightarrow> page_id_t \<Rightarrow> page_id_t option \<times> 'k BufferPoolManager" where
  "FetchPage b pid =
     (case pages b pid of
        None \<Rightarrow> (None, b\<lparr>calls := calls b @ [Fetch pid]\<rparr>)
      | Some pg \<Rightarrow>
          (Some pid, b\<lparr>pin_count := (pin_count b)(pid := pin_count b pid + 1),
                        calls := calls b @ [Fetch pid]\<rparr>))"

definition UnpinPage ::
  "'k BufferPoolManager \<Rightarrow> page_id_t \<Rightarrow> bool \<Rightarrow> 'k BufferPoolManager" where
  "UnpinPage b pid is_dirty =
     b\<lparr>pin_count := (pin_count b)(pid := (if pin_count b pid = 0 then 0
                                            else pin_count b pid - 1)),
       calls := calls b @ [Unpin pid is_dirty]\<rparr>"

text \<open>
  An operation across pages either returns, leaving a pool, or stops the program at a
  failed assertion or a null pointer. A stop is recorded with the pool as it is at that
  moment: what had been fetched and not yet unpinned stays so.

  Below: sequencing of steps that can stop, a step of a page method (its assertion
  comes before any write, so the pool at the stop is the pool before the call),
  dereferencing a page pointer (a pointer to no page of the pool is the null or dangling
  pointer, and the program crashes), and a method call that mutates the page behind a
  pointer.
\<close>

type_synonym 'k abort = "error \<times> 'k BufferPoolManager"

definition bindE :: "'e + 'a \<Rightarrow> ('a \<Rightarrow> 'e + 'b) \<Rightarrow> 'e + 'b" where
  "bindE m f = (case m of Inl e \<Rightarrow> Inl e | Inr x \<Rightarrow> f x)"

definition abort_in :: "'k BufferPoolManager \<Rightarrow> error + 'a \<Rightarrow> 'k abort + 'a" where
  "abort_in b m = (case m of Inl e \<Rightarrow> Inl (e, b) | Inr x \<Rightarrow> Inr x)"

definition load :: "'k BufferPoolManager \<Rightarrow> page_id_t \<Rightarrow> 'k abort + 'k page" where
  "load b a = (case pages b a of None \<Rightarrow> Inl (NullPointer, b) | Some p \<Rightarrow> Inr p)"

definition store :: "'k BufferPoolManager \<Rightarrow> page_id_t \<Rightarrow> 'k page \<Rightarrow> 'k BufferPoolManager" where
  "store b a p = b\<lparr>pages := (pages b)(a \<mapsto> p)\<rparr>"

definition on_page ::
  "'k BufferPoolManager \<Rightarrow> page_id_t \<Rightarrow> ('k page \<Rightarrow> error + 'k page)
     \<Rightarrow> 'k abort + 'k BufferPoolManager" where
  "on_page b a f =
     bindE (load b a) (\<lambda>p. bindE (abort_in b (f p)) (\<lambda>p'. Inr (store b a p')))"

section \<open>Operations across pages\<close>

text \<open>
  The loops of \<open>CopyHalfFrom\<close> and \<open>CopyAllFrom\<close> have the same body,
  \<^verbatim>\<open>array[i] = *items++\<close>, and differ in where \<open>i\<close> starts. \<open>items\<close> points into
  the slot array of a page: the page and the index of the slot pointed at.
\<close>

function copy_items ::
  "page_id_t \<Rightarrow> page_id_t \<times> int \<Rightarrow> int \<Rightarrow> int \<Rightarrow> 'k BufferPoolManager
     \<Rightarrow> 'k abort + 'k BufferPoolManager" where
  "copy_items this items i sz b =
     (if i < sz
      then bindE (load b (fst items)) (\<lambda>src.
           bindE (on_page b this
                    (\<lambda>q. Inr (q\<lparr>array := (array q)(i := array src (snd items))\<rparr>))) (\<lambda>b'.
           copy_items this (fst items, snd items + 1) (i + 1) sz b'))
      else Inr b)"
  by pat_completeness auto
termination
  by (relation "measure (\<lambda>(this, items, i, sz, b). nat (sz - i))") auto

subsection \<open>Split\<close>

definition CopyHalfFrom ::
  "page_id_t \<Rightarrow> page_id_t \<times> int \<Rightarrow> int \<Rightarrow> 'k BufferPoolManager
     \<Rightarrow> 'k abort + 'k BufferPoolManager" where
  "CopyHalfFrom this items sz b =
     bindE (load b this) (\<lambda>r.
       if \<not> IsLeafPage r \<and> GetSize r = 1
       then bindE (copy_items this items 0 sz b) (\<lambda>b1.
            on_page b1 this (\<lambda>q. Inr (IncreaseSize q sz)))
       else Inl (AssertionFailed, b))"

definition MoveHalfTo ::
  "page_id_t \<Rightarrow> page_id_t \<Rightarrow> 'k BufferPoolManager \<Rightarrow> 'k abort + 'k BufferPoolManager" where
  "MoveHalfTo this recipient b =
     bindE (load b this) (\<lambda>p.
       let half = c_div (GetSize p) 2
       in bindE (CopyHalfFrom recipient (this, GetSize p - half) half b) (\<lambda>b1.
          on_page b1 this (\<lambda>q. Inr (IncreaseSize q (- 1 * half)))))"

subsection \<open>Merge\<close>

definition CopyAllFrom ::
  "page_id_t \<Rightarrow> page_id_t \<times> int \<Rightarrow> int \<Rightarrow> 'k BufferPoolManager
     \<Rightarrow> 'k abort + 'k BufferPoolManager" where
  "CopyAllFrom this items sz b =
     bindE (load b this) (\<lambda>r.
       if GetSize r + sz < GetMaxSize r
       then bindE (copy_items this items (GetSize r) sz b) (\<lambda>b1.
            on_page b1 this (\<lambda>q. Inr (IncreaseSize q sz)))
       else Inl (AssertionFailed, b))"

definition MoveAllTo ::
  "page_id_t \<Rightarrow> page_id_t \<Rightarrow> int \<Rightarrow> 'k BufferPoolManager
     \<Rightarrow> 'k abort + 'k BufferPoolManager" where
  "MoveAllTo this recipient index_in_parent b =
     bindE (load b this) (\<lambda>p.
     bindE (CopyAllFrom recipient (this, 1) (GetSize p - 1) b) (\<lambda>b1.
     bindE (load b1 this) (\<lambda>p1.
       case FetchPage b1 (GetParentPageId p1) of
         (None, b2) \<Rightarrow> Inl (NullPointer, b2)
       | (Some parent, b2) \<Rightarrow>
           bindE (on_page b2 parent (\<lambda>q. Remove q index_in_parent)) (\<lambda>b3.
           bindE (load b3 parent) (\<lambda>q.
           Inr (UnpinPage b3 (GetPageId q) True))))))"

subsection \<open>Redistribute\<close>

definition CopyLastFrom ::
  "page_id_t \<Rightarrow> 'k \<times> page_id_t \<Rightarrow> 'k BufferPoolManager
     \<Rightarrow> 'k abort + 'k BufferPoolManager" where
  "CopyLastFrom this pair b =
     bindE (load b this) (\<lambda>p.
       if GetSize p + 1 < GetMaxSize p
       then (case FetchPage b (GetParentPageId p) of
               (None, b1) \<Rightarrow> Inl (NullPointer, b1)
             | (Some parent, b1) \<Rightarrow>
                 bindE (load b1 parent) (\<lambda>pp.
                 let index = ValueIndex pp (GetPageId p)
                 in bindE (abort_in b1 (KeyAt pp (index + 1))) (\<lambda>key.
                    bindE (on_page b1 this (\<lambda>q. Inr (IncreaseSize
                             (q\<lparr>array := (array q)(GetSize q := (key, snd pair))\<rparr>) 1))) (\<lambda>b2.
                    bindE (on_page b2 parent (\<lambda>q. SetKeyAt q (index + 1) (fst pair))) (\<lambda>b3.
                    bindE (load b3 parent) (\<lambda>q.
                    Inr (UnpinPage b3 (GetPageId q) True)))))))
       else Inl (AssertionFailed, b))"

definition MoveFirstToEndOf ::
  "page_id_t \<Rightarrow> page_id_t \<Rightarrow> 'k BufferPoolManager \<Rightarrow> 'k abort + 'k BufferPoolManager" where
  "MoveFirstToEndOf this recipient b =
     bindE (load b this) (\<lambda>p.
       if GetSize p > 1
       then (let pair = array p 1
             in bindE (on_page b this
                         (\<lambda>q. Inr (q\<lparr>array := (array q)(0 := array q 1)\<rparr>))) (\<lambda>b1.
                bindE (on_page b1 this (\<lambda>q. Remove q 1)) (\<lambda>b2.
                CopyLastFrom recipient pair b2)))
       else Inl (AssertionFailed, b))"

text \<open>
  \<open>CopyFirstFrom\<close> passes \<^verbatim>\<open>array[0].second\<close> by reference to \<open>InsertNodeAfter\<close>, as
  the old and as the new value. The loop of \<open>InsertNodeAfter\<close> writes slots 1 and above
  only, so the referenced value does not change during the call.
\<close>

definition CopyFirstFrom ::
  "page_id_t \<Rightarrow> 'k \<times> page_id_t \<Rightarrow> int \<Rightarrow> 'k BufferPoolManager
     \<Rightarrow> 'k abort + 'k BufferPoolManager" where
  "CopyFirstFrom this pair parent_index b =
     bindE (load b this) (\<lambda>p.
       if GetSize p + 1 < GetMaxSize p
       then (case FetchPage b (GetParentPageId p) of
               (None, b1) \<Rightarrow> Inl (NullPointer, b1)
             | (Some parent, b1) \<Rightarrow>
                 bindE (load b1 parent) (\<lambda>pp.
                 bindE (abort_in b1 (KeyAt pp parent_index)) (\<lambda>key.
                 bindE (on_page b1 parent (\<lambda>q. SetKeyAt q parent_index (fst pair))) (\<lambda>b2.
                 bindE (on_page b2 this (\<lambda>q. Inr (fst (InsertNodeAfter q
                          (snd (array q 0)) key (snd (array q 0)))))) (\<lambda>b3.
                 bindE (on_page b3 this (\<lambda>q. Inr
                          (q\<lparr>array := (array q)(0 := (fst (array q 0), snd pair))\<rparr>))) (\<lambda>b4.
                 bindE (load b4 parent) (\<lambda>q.
                 Inr (UnpinPage b4 (GetPageId q) True))))))))
       else Inl (AssertionFailed, b))"

definition MoveLastToFrontOf ::
  "page_id_t \<Rightarrow> page_id_t \<Rightarrow> int \<Rightarrow> 'k BufferPoolManager
     \<Rightarrow> 'k abort + 'k BufferPoolManager" where
  "MoveLastToFrontOf this recipient parent_index b =
     bindE (load b this) (\<lambda>p.
       if GetSize p > 1
       then bindE (on_page b this (\<lambda>q. Inr (IncreaseSize q (- 1)))) (\<lambda>b1.
            bindE (load b1 this) (\<lambda>q.
            CopyFirstFrom recipient (array q (GetSize q)) parent_index b1))
       else Inl (AssertionFailed, b))"

section \<open>Comparators and example pages\<close>

text \<open>
  The comparator is a parameter of \<open>Lookup\<close>. It is a three-way comparison of a total
  order when its sign says how the two keys compare.
\<close>

definition three_way :: "('k::linorder \<Rightarrow> 'k \<Rightarrow> int) \<Rightarrow> bool" where
  "three_way comparator =
     (\<forall>a b. (comparator a b < 0) = (a < b) \<and> (comparator a b = 0) = (a = b))"

definition int_cmp :: "int \<Rightarrow> int \<Rightarrow> int" where
  "int_cmp a b = (if a < b then - 1 else if a = b then 0 else 1)"

text \<open>
  A page with the given slots, from slot 0 on, in zeroed memory: every slot past the
  given ones holds \<open>stale\<close>.
\<close>

fun array_of :: "('k \<times> page_id_t) list \<Rightarrow> 'k \<times> page_id_t \<Rightarrow> int \<Rightarrow> 'k \<times> page_id_t" where
  "array_of [] stale i = stale"
| "array_of (x # xs) stale i = (if i = 0 then x else array_of xs stale (i - 1))"

definition mk_page :: "page_id_t \<Rightarrow> page_id_t \<Rightarrow> int \<Rightarrow> (int \<times> page_id_t) list \<Rightarrow> int page" where
  "mk_page pid parent maxsz xs =
     \<lparr>page_kind = INTERNAL_PAGE, current_size = int (length xs), max_size = maxsz,
      page_id = pid, parent_page_id = parent,
      array = array_of xs (0, 0)\<rparr>"

definition example_page :: "int page" where
  "example_page = mk_page 1 9 6 [(0, 100), (10, 101), (20, 102), (30, 103)]"

text \<open>
  The scenario of the specification: a page with room for four slots that holds one
  child, into which the children for the keys 10, 20 and 30 are inserted in order.
\<close>

definition scenario_page :: "int page" where
  "scenario_page =
     fst (InsertNodeAfter (fst (InsertNodeAfter (fst (InsertNodeAfter
       (mk_page 1 9 4 [(0, 100)]) 100 10 101)) 101 20 102)) 102 30 103)"

section \<open>Observations and example pools\<close>

text \<open>What a caller can read of a page of the pool after an operation.\<close>

definition page_slots ::
  "page_id_t \<Rightarrow> 'k BufferPoolManager \<Rightarrow> ('k \<times> page_id_t) list option" where
  "page_slots a b = map_option slots (pages b a)"

definition page_size :: "page_id_t \<Rightarrow> 'k BufferPoolManager \<Rightarrow> int option" where
  "page_size a b = map_option GetSize (pages b a)"

definition page_pins :: "page_id_t \<Rightarrow> 'k BufferPoolManager \<Rightarrow> nat" where
  "page_pins a b = pin_count b a"

definition page_parent :: "page_id_t \<Rightarrow> 'k BufferPoolManager \<Rightarrow> page_id_t option" where
  "page_parent a b = map_option GetParentPageId (pages b a)"

text \<open>
  The header fields that no operation of the internal page is meant to change, and
  pools that agree on them for every page.
\<close>

definition page_header ::
  "'k page \<Rightarrow> IndexPageType \<times> int \<times> page_id_t \<times> page_id_t" where
  "page_header p = (page_kind p, max_size p, page_id p, parent_page_id p)"

definition same_headers :: "'k BufferPoolManager \<Rightarrow> 'k BufferPoolManager \<Rightarrow> bool" where
  "same_headers b b' =
     (\<forall>a. map_option page_header (pages b' a) = map_option page_header (pages b a))"

text \<open>A pool holds every page under the page's own id.\<close>

definition pool_wf :: "'k BufferPoolManager \<Rightarrow> bool" where
  "pool_wf b = (\<forall>a. map_option GetPageId (pages b a) = map_option (\<lambda>p. a) (pages b a))"

text \<open>A pool holding the given pages, nothing pinned and no call made yet.\<close>

definition mk_pool :: "int page list \<Rightarrow> int BufferPoolManager" where
  "mk_pool ps =
     \<lparr>pages = map_of (map (\<lambda>p. (page_id p, p)) ps), pin_count = (\<lambda>a. 0), calls = []\<rparr>"

text \<open>
  Two siblings under the parent page 9, which holds the separator key 50 for page 2.
  Pages have room for six slots; page 1, on the left, holds three children and page 2,
  on the right, has fallen to two.
\<close>

definition merge_pool :: "int BufferPoolManager" where
  "merge_pool =
     mk_pool [mk_page 9 (- 1) 6 [(0, 1), (50, 2)],
              mk_page 1 9 6 [(0, 100), (10, 101), (20, 102)],
              mk_page 2 9 6 [(0, 200), (60, 201)]]"

text \<open>
  Two siblings under the parent page 9, with room for four slots: page 1, on the left,
  has fallen to one child and page 2, on the right, holds three.
\<close>

definition borrow_pool :: "int BufferPoolManager" where
  "borrow_pool =
     mk_pool [mk_page 9 (- 1) 4 [(0, 1), (50, 2)],
              mk_page 1 9 4 [(0, 100)],
              mk_page 2 9 4 [(0, 200), (60, 201), (70, 202)]]"

text \<open>
  A full page 1 about to be split into the fresh page 2 (size 1, zeroed memory), with
  the child pages 102 and 103 of page 1.
\<close>

definition split_pool :: "int BufferPoolManager" where
  "split_pool =
     mk_pool [mk_page 1 9 4 [(0, 100), (10, 101), (20, 102), (30, 103)],
              mk_page 2 9 4 [(0, 0)],
              mk_page 102 1 4 [(0, 7), (25, 8)],
              mk_page 103 1 4 [(0, 5), (35, 6)]]"

section \<open>Properties of the page operations\<close>

declare ValueIndex_loop.simps [simp del]
declare Lookup_loop.simps [simp del]
declare InsertNodeAfter_loop.simps [simp del]
declare Remove_loop.simps [simp del]
declare copy_items.simps [simp del]

lemma example_page_facts:
  "GetSize example_page = 4"
  "array example_page 0 = (0, 100)" "array example_page 1 = (10, 101)"
  "array example_page 2 = (20, 102)" "array example_page 3 = (30, 103)"
  by (simp_all add: example_page_def mk_page_def GetSize_def)

subsection \<open>ValueIndex\<close>

lemma ValueIndex_loop_found:
  assumes "\<exists>j. i \<le> j \<and> j < GetSize p \<and> snd (array p j) = v"
  shows "i \<le> ValueIndex_loop p v i \<and> ValueIndex_loop p v i < GetSize p
         \<and> snd (array p (ValueIndex_loop p v i)) = v
         \<and> (\<forall>l. i \<le> l \<and> l < ValueIndex_loop p v i \<longrightarrow> snd (array p l) \<noteq> v)"
  using assms
proof (induction p v i rule: ValueIndex_loop.induct)
  case (1 p v i)
  from "1.prems" have lt: "i < GetSize p" by auto
  show ?case
  proof (cases "snd (array p i) = v")
    case True
    with lt show ?thesis by (simp add: ValueIndex_loop.simps [of p v i])
  next
    case False
    with "1.prems" have "\<exists>j. i + 1 \<le> j \<and> j < GetSize p \<and> snd (array p j) = v"
      by (metis add1_zle_eq order_le_less)
    from "1.IH" [OF lt False this] False lt show ?thesis
      apply (simp add: ValueIndex_loop.simps [of p v i])
      by (metis add1_zle_eq order_le_less)
  qed
qed

lemma ValueIndex_loop_absent:
  assumes "\<forall>j. i \<le> j \<and> j < GetSize p \<longrightarrow> snd (array p j) \<noteq> v"
  shows "ValueIndex_loop p v i = GetSize p"
  using assms
proof (induction p v i rule: ValueIndex_loop.induct)
  case (1 p v i)
  show ?case
  proof (cases "i < GetSize p")
    case True
    with "1.prems" have ne: "snd (array p i) \<noteq> v" by simp
    from "1.prems" have "\<forall>j. i + 1 \<le> j \<and> j < GetSize p \<longrightarrow> snd (array p j) \<noteq> v" by simp
    from "1.IH" [OF True ne this] True ne show ?thesis
      by (simp add: ValueIndex_loop.simps [of p v i])
  next
    case False
    then show ?thesis by (simp add: ValueIndex_loop.simps [of p v i])
  qed
qed

text \<open>
  Claim C10. \<open>ValueIndex\<close> returns the smallest index below the size whose slot holds
  the given child when there is such a slot, and the size itself when no slot below the
  size holds it: not found is the index one past the last slot, not an error.
\<close>

theorem ValueIndex_first_or_size:
  "((\<exists>j. 0 \<le> j \<and> j < GetSize p \<and> snd (array p j) = v) \<longrightarrow>
      0 \<le> ValueIndex p v \<and> ValueIndex p v < GetSize p
      \<and> snd (array p (ValueIndex p v)) = v
      \<and> (\<forall>l. 0 \<le> l \<and> l < ValueIndex p v \<longrightarrow> snd (array p l) \<noteq> v))
   \<and> ((\<forall>j. 0 \<le> j \<and> j < GetSize p \<longrightarrow> snd (array p j) \<noteq> v) \<longrightarrow>
      ValueIndex p v = GetSize p)"
  unfolding ValueIndex_def
  using ValueIndex_loop_found [of 0 p v] ValueIndex_loop_absent [of 0 p v] by blast

theorem ValueIndex_first_or_size_witness:
  "snd (array example_page (ValueIndex example_page 102)) = 102
   \<and> ValueIndex example_page 102 < GetSize example_page
   \<and> ValueIndex example_page 555 = GetSize example_page"
proof -
  have found: "\<exists>j. 0 \<le> j \<and> j < GetSize example_page \<and> snd (array example_page j) = 102"
    by (rule exI [of _ 2]) (simp add: example_page_facts)
  have absent: "\<forall>j. 0 \<le> j \<and> j < GetSize example_page \<longrightarrow> snd (array example_page j) \<noteq> 555"
    by (simp add: example_page_def mk_page_def GetSize_def)
  from found absent ValueIndex_first_or_size [of example_page 102]
    ValueIndex_first_or_size [of example_page 555]
  show ?thesis by blast
qed

subsection \<open>Assertions\<close>

lemma InsertNodeAfter_loop_absent:
  assumes "\<forall>l. 0 \<le> l \<and> l < i \<longrightarrow> snd (array p l) \<noteq> v"
  shows "GetSize (InsertNodeAfter_loop p v nk nv i) = GetSize p"
  using assms
proof (induction p v nk nv i rule: InsertNodeAfter_loop.induct)
  case (1 p v nk nv i)
  show ?case
  proof (cases "i > 0")
    case False
    then show ?thesis by (simp add: InsertNodeAfter_loop.simps [of p v nk nv i])
  next
    case True
    with "1.prems" have ne: "snd (array p (i - 1)) \<noteq> v" by simp
    let ?p' = "p\<lparr>array := (array p)(i := array p (i - 1))\<rparr>"
    have "\<forall>l. 0 \<le> l \<and> l < i - 1 \<longrightarrow> snd (array ?p' l) \<noteq> v" using "1.prems" by simp
    from "1.IH" [OF True ne this] True ne show ?thesis
      by (simp add: InsertNodeAfter_loop.simps [of p v nk nv i] GetSize_def)
  qed
qed

text \<open>
  Claim C8, as amended. The accessors \<open>KeyAt\<close>, \<open>SetKeyAt\<close> and \<open>ValueAt\<close> fail their
  assertion exactly when the index is outside the range from 0 up to the size, \<open>Lookup\<close>
  fails exactly when the size is at most 1, and \<open>PopulateNewRoot\<close> fails exactly when
  the size is not 1. A failed assertion is the only failure of these operations, so each
  of them returns a result exactly when its precondition holds. \<open>InsertNodeAfter\<close> has
  no check: when no slot below the size holds \<open>after_child\<close> it returns as usual, and
  the size it returns is the size the page had.
\<close>

theorem assertion_checks:
  "(KeyAt p index = Inl AssertionFailed) = (\<not> (0 \<le> index \<and> index < GetSize p))
   \<and> (SetKeyAt p index key = Inl AssertionFailed) = (\<not> (0 \<le> index \<and> index < GetSize p))
   \<and> (ValueAt p index = Inl AssertionFailed) = (\<not> (0 \<le> index \<and> index < GetSize p))
   \<and> (Lookup p key comparator = Inl AssertionFailed) = (GetSize p \<le> 1)
   \<and> (PopulateNewRoot p old_value new_key new_value = Inl AssertionFailed) = (GetSize p \<noteq> 1)
   \<and> isl (KeyAt p index) = (\<not> (0 \<le> index \<and> index < GetSize p))
   \<and> isl (SetKeyAt p index key) = (\<not> (0 \<le> index \<and> index < GetSize p))
   \<and> isl (ValueAt p index) = (\<not> (0 \<le> index \<and> index < GetSize p))
   \<and> isl (Lookup p key comparator) = (GetSize p \<le> 1)
   \<and> isl (PopulateNewRoot p old_value new_key new_value) = (GetSize p \<noteq> 1)
   \<and> ((\<forall>l. 0 \<le> l \<and> l < GetSize p \<longrightarrow> snd (array p l) \<noteq> after_child) \<longrightarrow>
        snd (InsertNodeAfter p after_child new_key new_value) = GetSize p)"
proof -
  have "(\<forall>l. 0 \<le> l \<and> l < GetSize p \<longrightarrow> snd (array p l) \<noteq> after_child) \<longrightarrow>
        snd (InsertNodeAfter p after_child new_key new_value) = GetSize p"
    by (simp add: InsertNodeAfter_def Let_def InsertNodeAfter_loop_absent)
  then show ?thesis
    by (simp add: KeyAt_def SetKeyAt_def ValueAt_def Lookup_def PopulateNewRoot_def)
qed

theorem assertion_checks_witness:
  "snd (InsertNodeAfter example_page 555 15 150) = GetSize example_page
   \<and> KeyAt example_page 4 = Inl AssertionFailed
   \<and> KeyAt example_page 3 = Inr 30"
proof -
  have absent: "\<forall>l. 0 \<le> l \<and> l < GetSize example_page \<longrightarrow> snd (array example_page l) \<noteq> 555"
    by (simp add: example_page_def mk_page_def GetSize_def)
  have "KeyAt example_page 3 = Inr 30"
    by (simp add: KeyAt_def example_page_facts)
  with absent assertion_checks [where p = example_page and index = 4 and after_child = 555
      and new_key = 15 and new_value = 150]
  show ?thesis by (simp add: example_page_facts)
qed

text \<open>
  Claim C8, as stated, fails: not every violation of a precondition is rejected. No
  slot of the example page holds the child 555, and \<open>InsertNodeAfter\<close> after that child
  returns the unchanged size 4 with every slot copied one position to the right.
\<close>

theorem InsertNodeAfter_missing_child_tolerated:
  "snd (InsertNodeAfter example_page 555 15 150) = 4
   \<and> slots (fst (InsertNodeAfter example_page 555 15 150))
       = [(0, 100), (0, 100), (10, 101), (20, 102)]
   \<and> slots example_page = [(0, 100), (10, 101), (20, 102), (30, 103)]"
  by code_simp

subsection \<open>Remove\<close>

text \<open>
  Claim C3. Removing slot 1 of the example page (keys 0, 10, 20, 30) should leave the
  slots for 0, 20 and 30. The loop copies slot 2 over slot 1 twice and never moves
  slot 3, so the page ends with the slot for 20 twice and the slot for 30 lost.
\<close>

theorem Remove_middle_slot:
  "map_sum id slots (Remove example_page 1) = Inr [(0, 100), (20, 102), (20, 102)]"
  by code_simp

subsection \<open>Lookup\<close>

lemma three_way_less: "three_way c \<Longrightarrow> (c a b < 0) = (a < b)"
  by (simp add: three_way_def)

lemma three_way_ge: "three_way c \<Longrightarrow> (c a b \<ge> 0) = (b \<le> a)"
  using three_way_less [of c a b] by auto

lemma three_way_greater: "three_way c \<Longrightarrow> (c a b > 0) = (b < a)"
  unfolding three_way_def by (metis less_le_not_le linorder_less_linear order_less_irrefl)

lemma three_way_le: "three_way c \<Longrightarrow> (c a b \<le> 0) = (a \<le> b)"
  using three_way_greater [of c a b] by auto

lemma c_div_2: "0 \<le> a \<Longrightarrow> c_div a 2 = a div 2"
  by (auto simp: c_div_def sgn_if)

lemma Lookup_loop_between:
  fixes p :: "('k::linorder) page"
  assumes "\<forall>i j. 1 \<le> i \<and> i < j \<and> j < GetSize p \<longrightarrow> fst (array p i) < fst (array p j)"
    and "three_way c"
    and "1 \<le> low" and "low < high" and "high < GetSize p"
    and "fst (array p low) \<le> key" and "key < fst (array p high)"
  shows "\<exists>i. low \<le> i \<and> i < high \<and> Lookup_loop p key c low high = snd (array p i)
             \<and> fst (array p i) \<le> key \<and> key < fst (array p (i + 1))"
  using assms
proof (induction p key c low high rule: Lookup_loop.induct)
  case (1 p key c low high)
  let ?mid = "low + c_div (high - low) 2"
  show ?case
  proof (cases "low + 1 = high")
    case True
    with "1.prems" show ?thesis
      by (intro exI [of _ low]) (auto simp: Lookup_loop.simps [of p key c low high])
  next
    case False
    with "1.prems" have gap: "low < high \<and> low + 1 \<noteq> high" by simp
    have mid: "low < ?mid" "?mid < high"
    proof -
      have "c_div (high - low) 2 = (high - low) div 2" using gap by (simp add: c_div_2)
      moreover have "0 < (high - low) div 2" "(high - low) div 2 < high - low"
        using gap by linarith+
      ultimately show "low < ?mid" "?mid < high" by linarith+
    qed
    show ?thesis
    proof (cases "key < fst (array p ?mid)")
      case True
      then have c: "c key (fst (array p ?mid)) < 0" using "1.prems"(2) by (simp add: three_way_less)
      from "1.IH"(1) [OF gap c "1.prems"(1,2,3) mid(1) _ "1.prems"(6) True] mid "1.prems"(5)
      obtain i where "low \<le> i" "i < ?mid" "Lookup_loop p key c low ?mid = snd (array p i)"
        "fst (array p i) \<le> key" "key < fst (array p (i + 1))" by auto
      with mid gap c show ?thesis
        by (intro exI [of _ i]) (simp add: Lookup_loop.simps [of p key c low high])
    next
      case nl: False
      then have c: "\<not> c key (fst (array p ?mid)) < 0" using "1.prems"(2) by (simp add: three_way_less)
      show ?thesis
      proof (cases "fst (array p ?mid) < key")
        case True
        then have c2: "c key (fst (array p ?mid)) > 0" using "1.prems"(2) by (simp add: three_way_greater)
        have le: "fst (array p ?mid) \<le> key" using True by simp
        have m1: "1 \<le> ?mid" using mid "1.prems"(3) by linarith
        from "1.IH"(2) [OF gap c c2 "1.prems"(1,2) m1 mid(2) "1.prems"(5) le "1.prems"(7)]
        obtain i where "?mid \<le> i" "i < high" "Lookup_loop p key c ?mid high = snd (array p i)"
          "fst (array p i) \<le> key" "key < fst (array p (i + 1))" by auto
        with mid gap c c2 show ?thesis
          by (intro exI [of _ i]) (simp add: Lookup_loop.simps [of p key c low high])
      next
        case False
        with nl have eq: "fst (array p ?mid) = key" by simp
        then have c2: "\<not> c key (fst (array p ?mid)) > 0" using "1.prems"(2) by (simp add: three_way_greater)
        have "key < fst (array p (?mid + 1))"
        proof -
          have "1 \<le> ?mid \<and> ?mid < ?mid + 1 \<and> ?mid + 1 < GetSize p"
            using mid "1.prems"(3,5) by linarith
          with "1.prems"(1) eq show ?thesis by blast
        qed
        with mid gap c c2 eq show ?thesis
          by (intro exI [of _ ?mid]) (simp add: Lookup_loop.simps [of p key c low high])
      qed
    qed
  qed
qed

lemma scenario_page_lookup: "Lookup scenario_page 25 int_cmp = Inr 102"
  by code_simp

lemma three_way_int_cmp: "three_way int_cmp"
  by (simp add: three_way_def int_cmp_def)

text \<open>
  Claim C1. On a page of size above 1 whose keys from index 1 on increase strictly
  under the comparator, \<open>Lookup\<close> returns the child of slot 0 for a key below the key
  of slot 1, the child of the last slot for a key at or above the last key, and
  otherwise the child of the slot with the largest index whose key is at most the
  given key. On the scenario page, holding the children for 10, 20 and 30, the lookup
  of 25 returns the child inserted with the key 20.
\<close>

theorem Lookup_contract:
  fixes p :: "('k::linorder) page"
  assumes tw: "three_way comparator"
    and sz: "GetSize p > 1"
    and sorted: "\<forall>i j. 1 \<le> i \<and> i < j \<and> j < GetSize p \<longrightarrow>
                   comparator (fst (array p i)) (fst (array p j)) < 0"
  shows "(comparator key (fst (array p 1)) < 0 \<longrightarrow>
            Lookup p key comparator = Inr (snd (array p 0)))
       \<and> (comparator key (fst (array p (GetSize p - 1))) \<ge> 0 \<longrightarrow>
            Lookup p key comparator = Inr (snd (array p (GetSize p - 1))))
       \<and> (comparator key (fst (array p 1)) \<ge> 0
            \<and> comparator key (fst (array p (GetSize p - 1))) < 0 \<longrightarrow>
            (\<exists>i. 1 \<le> i \<and> i < GetSize p
                 \<and> comparator (fst (array p i)) key \<le> 0
                 \<and> (\<forall>j. 1 \<le> j \<and> j < GetSize p
                          \<and> comparator (fst (array p j)) key \<le> 0 \<longrightarrow> j \<le> i)
                 \<and> Lookup p key comparator = Inr (snd (array p i))))
       \<and> Lookup scenario_page 25 int_cmp = Inr 102"
proof -
  let ?n = "GetSize p"
  have srt: "\<forall>i j. 1 \<le> i \<and> i < j \<and> j < ?n \<longrightarrow> fst (array p i) < fst (array p j)"
    using sorted tw by (simp add: three_way_less)
  have first: "fst (array p 1) \<le> fst (array p (?n - 1))"
  proof (cases "?n = 2")
    case True
    then show ?thesis by simp
  next
    case False
    with sz have "1 \<le> (1::int) \<and> 1 < ?n - 1 \<and> ?n - 1 < ?n" by simp
    with srt have "fst (array p 1) < fst (array p (?n - 1))" by blast
    then show ?thesis by simp
  qed
  have c1: "comparator key (fst (array p 1)) < 0 \<longrightarrow>
              Lookup p key comparator = Inr (snd (array p 0))"
    using sz by (simp add: Lookup_def)
  have c2: "comparator key (fst (array p (?n - 1))) \<ge> 0 \<longrightarrow>
              Lookup p key comparator = Inr (snd (array p (?n - 1)))"
  proof
    assume ge: "comparator key (fst (array p (?n - 1))) \<ge> 0"
    then have "fst (array p (?n - 1)) \<le> key" using tw by (simp add: three_way_ge)
    with first have "fst (array p 1) \<le> key" by simp
    then have "\<not> comparator key (fst (array p 1)) < 0" using tw by (simp add: three_way_less)
    with ge sz show "Lookup p key comparator = Inr (snd (array p (?n - 1)))"
      by (simp add: Lookup_def)
  qed
  have c3: "comparator key (fst (array p 1)) \<ge> 0
            \<and> comparator key (fst (array p (?n - 1))) < 0 \<longrightarrow>
            (\<exists>i. 1 \<le> i \<and> i < ?n
                 \<and> comparator (fst (array p i)) key \<le> 0
                 \<and> (\<forall>j. 1 \<le> j \<and> j < ?n
                          \<and> comparator (fst (array p j)) key \<le> 0 \<longrightarrow> j \<le> i)
                 \<and> Lookup p key comparator = Inr (snd (array p i)))"
  proof
    assume a: "comparator key (fst (array p 1)) \<ge> 0
               \<and> comparator key (fst (array p (?n - 1))) < 0"
    then have lo: "fst (array p 1) \<le> key" and hi: "key < fst (array p (?n - 1))"
      using tw by (simp_all add: three_way_ge three_way_less)
    from lo hi have "1 \<noteq> ?n - 1" by auto
    with sz have lh: "(1::int) < ?n - 1" by simp
    from Lookup_loop_between [OF srt tw _ lh _ lo hi]
    obtain i where i: "1 \<le> i" "i < ?n - 1"
      "Lookup_loop p key comparator 1 (?n - 1) = snd (array p i)"
      "fst (array p i) \<le> key" "key < fst (array p (i + 1))" by auto
    have largest: "\<forall>j. 1 \<le> j \<and> j < ?n \<and> comparator (fst (array p j)) key \<le> 0 \<longrightarrow> j \<le> i"
    proof (intro allI impI)
      fix j
      assume j: "1 \<le> j \<and> j < ?n \<and> comparator (fst (array p j)) key \<le> 0"
      then have jk: "fst (array p j) \<le> key" using tw by (simp add: three_way_le)
      show "j \<le> i"
      proof (rule ccontr)
        assume "\<not> j \<le> i"
        then have ij: "i + 1 \<le> j" by simp
        have "fst (array p (i + 1)) \<le> fst (array p j)"
        proof (cases "i + 1 = j")
          case True
          then show ?thesis by simp
        next
          case False
          with ij i j have "1 \<le> i + 1 \<and> i + 1 < j \<and> j < ?n" by simp
          with srt have "fst (array p (i + 1)) < fst (array p j)" by blast
          then show ?thesis by simp
        qed
        with jk i(5) show False by simp
      qed
    qed
    have "Lookup p key comparator = Inr (snd (array p i))"
      using a sz i(3) by (simp add: Lookup_def)
    moreover have "comparator (fst (array p i)) key \<le> 0"
      using i(4) tw by (simp add: three_way_le)
    ultimately show "\<exists>i. 1 \<le> i \<and> i < ?n
                 \<and> comparator (fst (array p i)) key \<le> 0
                 \<and> (\<forall>j. 1 \<le> j \<and> j < ?n
                          \<and> comparator (fst (array p j)) key \<le> 0 \<longrightarrow> j \<le> i)
                 \<and> Lookup p key comparator = Inr (snd (array p i))"
      using i(1,2) largest by (intro exI [of _ i]) simp
  qed
  from c1 c2 c3 scenario_page_lookup show ?thesis by blast
qed

lemmas int_cmp_simps =
  three_way_less [OF three_way_int_cmp] three_way_ge [OF three_way_int_cmp]
  three_way_le [OF three_way_int_cmp]

lemma example_page_sorted:
  "\<forall>i j. 1 \<le> i \<and> i < j \<and> j < GetSize example_page \<longrightarrow>
     int_cmp (fst (array example_page i)) (fst (array example_page j)) < 0"
  by (auto simp: example_page_def mk_page_def GetSize_def int_cmp_def)

theorem Lookup_contract_witness:
  "Lookup example_page 5 int_cmp = Inr 100
   \<and> Lookup example_page 35 int_cmp = Inr 103
   \<and> Lookup example_page 25 int_cmp = Inr 102"
proof -
  have sz: "GetSize example_page > 1" by (simp add: example_page_facts)
  note c = Lookup_contract [OF three_way_int_cmp sz example_page_sorted]
  have "Lookup example_page 5 int_cmp = Inr 100"
    using c [of 5] by (simp add: example_page_facts int_cmp_simps)
  moreover have "Lookup example_page 35 int_cmp = Inr 103"
    using c [of 35] by (simp add: example_page_facts int_cmp_simps)
  moreover have "Lookup example_page 25 int_cmp = Inr 102"
  proof -
    from c [of 25] obtain i where i: "1 \<le> i" "i < 4"
      "int_cmp (fst (array example_page i)) 25 \<le> 0"
      "\<forall>j. 1 \<le> j \<and> j < 4 \<and> int_cmp (fst (array example_page j)) 25 \<le> 0 \<longrightarrow> j \<le> i"
      "Lookup example_page 25 int_cmp = Inr (snd (array example_page i))"
      by (auto simp: example_page_facts int_cmp_simps)
    from i(4) have "2 \<le> i" by (auto simp: example_page_facts int_cmp_simps)
    with i(1,2) have "i = 2 \<or> i = 3" by auto
    with i(3) have "i = 2" by (auto simp: example_page_facts int_cmp_simps)
    with i(5) show ?thesis by (simp add: example_page_facts)
  qed
  ultimately show ?thesis by simp
qed

subsection \<open>InsertNodeAfter\<close>

lemma length_slots: "length (slots p) = nat (GetSize p)"
  by (simp add: slots_def)

lemma slots_nth: "k < nat (GetSize p) \<Longrightarrow> slots p ! k = array p (int k)"
  by (simp add: slots_def)

lemma InsertNodeAfter_loop_found:
  assumes "0 \<le> j" and "j < i" and "snd (array p j) = v"
    and "\<forall>l. j < l \<and> l < i \<longrightarrow> snd (array p l) \<noteq> v"
  shows "InsertNodeAfter_loop p v nk nv i =
           IncreaseSize (p\<lparr>array := (\<lambda>x. if x = j + 1 then (nk, nv)
                                         else if j + 1 < x \<and> x \<le> i then array p (x - 1)
                                         else array p x)\<rparr>) 1"
  using assms
proof (induction p v nk nv i rule: InsertNodeAfter_loop.induct)
  case (1 p v nk nv i)
  from "1.prems" have pos: "i > 0" by simp
  show ?case
  proof (cases "snd (array p (i - 1)) = v")
    case True
    with "1.prems" have "j = i - 1"
      by (metis add_diff_cancel_right' diff_add_cancel less_le not_less zle_diff1_eq zless_add1_eq)
    with True pos show ?thesis
      by (simp add: InsertNodeAfter_loop.simps [of p v nk nv i] IncreaseSize_def fun_eq_iff)
  next
    case False
    with "1.prems" have ji: "j < i - 1"
      by (metis add_diff_cancel_right' less_le zless_add1_eq diff_add_cancel)
    let ?p' = "p\<lparr>array := (array p)(i := array p (i - 1))\<rparr>"
    have a: "snd (array ?p' j) = v" using "1.prems" by simp
    have b: "\<forall>l. j < l \<and> l < i - 1 \<longrightarrow> snd (array ?p' l) \<noteq> v" using "1.prems" by simp
    from "1.IH" [OF pos False "1.prems"(1) ji a b] False pos ji show ?thesis
      by (simp add: InsertNodeAfter_loop.simps [of p v nk nv i] IncreaseSize_def fun_eq_iff)
  qed
qed

text \<open>
  Claim C7. On a page of size \<open>n\<close> below its maximum with exactly one slot whose child
  is \<open>after_child\<close>, at index \<open>j\<close>, \<open>InsertNodeAfter\<close> returns \<open>n + 1\<close>, leaves the
  slots up to \<open>j\<close> as they were, puts the new pair at \<open>j + 1\<close> and moves every later
  slot one position to the right.
\<close>

theorem InsertNodeAfter_shifts_right:
  assumes "0 \<le> j" and "j < GetSize p" and "snd (array p j) = after_child"
    and "\<forall>l. 0 \<le> l \<and> l < GetSize p \<and> snd (array p l) = after_child \<longrightarrow> l = j"
    and "GetSize p < GetMaxSize p"
  shows "snd (InsertNodeAfter p after_child new_key new_value) = GetSize p + 1
       \<and> GetSize (fst (InsertNodeAfter p after_child new_key new_value)) = GetSize p + 1
       \<and> (\<forall>x. x \<le> j \<longrightarrow>
             array (fst (InsertNodeAfter p after_child new_key new_value)) x = array p x)
       \<and> array (fst (InsertNodeAfter p after_child new_key new_value)) (j + 1)
           = (new_key, new_value)
       \<and> (\<forall>x. j + 1 < x \<and> x \<le> GetSize p \<longrightarrow>
             array (fst (InsertNodeAfter p after_child new_key new_value)) x = array p (x - 1))
       \<and> slots (fst (InsertNodeAfter p after_child new_key new_value))
           = take (nat j + 1) (slots p) @ [(new_key, new_value)] @ drop (nat j + 1) (slots p)"
proof -
  let ?r = "InsertNodeAfter p after_child new_key new_value"
  have nomatch: "\<forall>l. j < l \<and> l < GetSize p \<longrightarrow> snd (array p l) \<noteq> after_child"
  proof (intro allI impI notI)
    fix l
    assume l: "j < l \<and> l < GetSize p" and "snd (array p l) = after_child"
    with assms(1) have "0 \<le> l \<and> l < GetSize p \<and> snd (array p l) = after_child" by simp
    with assms(4) have "l = j" by blast
    with l show False by simp
  qed
  have loop: "fst ?r = IncreaseSize (p\<lparr>array := (\<lambda>x. if x = j + 1 then (new_key, new_value)
                                         else if j + 1 < x \<and> x \<le> GetSize p then array p (x - 1)
                                         else array p x)\<rparr>) 1"
    using InsertNodeAfter_loop_found [OF assms(1,2,3) nomatch, of new_key new_value]
    by (simp add: InsertNodeAfter_def Let_def)
  have sz: "GetSize (fst ?r) = GetSize p + 1"
    by (simp add: loop IncreaseSize_def GetSize_def)
  have ret: "snd ?r = GetSize (fst ?r)"
    by (simp add: InsertNodeAfter_def Let_def)
  have arr: "array (fst ?r) = (\<lambda>x. if x = j + 1 then (new_key, new_value)
                                         else if j + 1 < x \<and> x \<le> GetSize p then array p (x - 1)
                                         else array p x)"
    by (simp add: loop IncreaseSize_def)
  have sl: "slots (fst ?r)
           = take (nat j + 1) (slots p) @ [(new_key, new_value)] @ drop (nat j + 1) (slots p)"
  proof (rule nth_equalityI)
    show "length (slots (fst ?r)) =
          length (take (nat j + 1) (slots p) @ [(new_key, new_value)] @ drop (nat j + 1) (slots p))"
      using assms(1,2) sz by (simp add: length_slots)
  next
    fix k
    assume "k < length (slots (fst ?r))"
    then have k: "k < nat (GetSize (fst ?r))" by (simp add: length_slots)
    then have lhs: "slots (fst ?r) ! k = array (fst ?r) (int k)" by (rule slots_nth)
    from k sz have kn: "int k \<le> GetSize p" by simp
    consider "k \<le> nat j" | "k = nat j + 1" | "nat j + 1 < k" by linarith
    then show "slots (fst ?r) ! k =
          (take (nat j + 1) (slots p) @ [(new_key, new_value)] @ drop (nat j + 1) (slots p)) ! k"
    proof cases
      case 1
      with assms(1,2) have kp: "k < nat (GetSize p)" by simp
      from 1 assms(1) have "int k \<le> j" by simp
      then have l: "array (fst ?r) (int k) = array p (int k)" by (simp add: arr)
      have "(take (nat j + 1) (slots p) @ [(new_key, new_value)] @ drop (nat j + 1) (slots p)) ! k
            = slots p ! k"
        using 1 kp by (simp add: nth_append length_slots)
      with l lhs slots_nth [OF kp] show ?thesis by simp
    next
      case 2
      from 2 assms(1) have "int k = j + 1" by simp
      then have l: "array (fst ?r) (int k) = (new_key, new_value)" by (simp add: arr)
      have "(take (nat j + 1) (slots p) @ [(new_key, new_value)] @ drop (nat j + 1) (slots p)) ! k
            = (new_key, new_value)"
        using 2 assms(1,2) by (simp add: nth_append length_slots)
      with l lhs show ?thesis by simp
    next
      case 3
      from 3 have kp: "k - 1 < nat (GetSize p)" using kn by simp
      from 3 assms(1) have "j + 1 < int k" by simp
      with kn have l: "array (fst ?r) (int k) = array p (int k - 1)" by (simp add: arr)
      have "(take (nat j + 1) (slots p) @ [(new_key, new_value)] @ drop (nat j + 1) (slots p)) ! k
            = slots p ! (k - 1)"
      proof -
        from 3 have "Suc (k - 2) = k - 1" by simp
        with 3 assms(1,2) kp show ?thesis by (simp add: nth_append length_slots)
      qed
      moreover have "int (k - 1) = int k - 1" using 3 by simp
      ultimately show ?thesis using l lhs slots_nth [OF kp] by simp
    qed
  qed
  from sz ret arr sl show ?thesis by simp
qed

lemma example_page_slots: "slots example_page = [(0, 100), (10, 101), (20, 102), (30, 103)]"
  by code_simp

theorem InsertNodeAfter_shifts_right_witness:
  "snd (InsertNodeAfter example_page 101 15 150) = 5
   \<and> slots (fst (InsertNodeAfter example_page 101 15 150))
       = [(0, 100), (10, 101), (15, 150), (20, 102), (30, 103)]"
proof -
  have h1: "(0::int) \<le> 1" by simp
  have h2: "1 < GetSize example_page" by (simp add: example_page_facts)
  have h3: "snd (array example_page 1) = 101" by (simp add: example_page_facts)
  have h4: "\<forall>l. 0 \<le> l \<and> l < GetSize example_page \<and> snd (array example_page l) = 101
                \<longrightarrow> l = 1"
    by (auto simp: example_page_def mk_page_def GetSize_def split: if_splits)
  have h5: "GetSize example_page < GetMaxSize example_page"
    by (simp add: example_page_def mk_page_def GetSize_def GetMaxSize_def)
  from InsertNodeAfter_shifts_right [OF h1 h2 h3 h4 h5, of 15 150]
  show ?thesis by (simp add: example_page_facts example_page_slots)
qed

section \<open>Properties of the operations across pages\<close>

subsection \<open>What the operations leave unchanged\<close>

lemma same_headers_refl: "same_headers b b"
  by (simp add: same_headers_def)

lemma same_headers_trans: "same_headers b b1 \<Longrightarrow> same_headers b1 b2 \<Longrightarrow> same_headers b b2"
  by (simp add: same_headers_def)

lemma load_Inr: "(load b a = Inr p) = (pages b a = Some p)"
  by (simp add: load_def split: option.splits)

lemma bindE_Inr: "(bindE m f = Inr y) = (\<exists>x. m = Inr x \<and> f x = Inr y)"
  by (cases m) (simp_all add: bindE_def)

lemma abort_in_Inr: "(abort_in b m = Inr x) = (m = Inr x)"
  by (cases m) (simp_all add: abort_in_def)

lemma on_page_frame:
  assumes "on_page b a f = Inr b'"
    and "\<And>p p'. f p = Inr p' \<Longrightarrow> page_header p' = page_header p"
  shows "same_headers b b' \<and> pin_count b' = pin_count b \<and> calls b' = calls b
         \<and> (\<forall>x. x \<noteq> a \<longrightarrow> pages b' x = pages b x)"
proof -
  from assms(1) obtain p p' where p: "pages b a = Some p" "f p = Inr p'" "b' = store b a p'"
    by (auto simp: on_page_def bindE_Inr load_Inr abort_in_Inr)
  from assms(2) [OF p(2)] p(1,3) show ?thesis
    by (simp add: same_headers_def store_def)
qed

lemma copy_items_frame:
  "copy_items this items i sz b = Inr b' \<Longrightarrow>
     same_headers b b' \<and> pin_count b' = pin_count b \<and> calls b' = calls b
     \<and> (\<forall>x. x \<noteq> this \<longrightarrow> pages b' x = pages b x)"
proof (induction this items i sz b rule: copy_items.induct)
  case (1 this items i sz b)
  show ?case
  proof (cases "i < sz")
    case False
    with "1.prems" show ?thesis
      by (simp add: copy_items.simps [of this items i sz b] same_headers_refl)
  next
    case True
    with "1.prems" obtain src b1 where s: "load b (fst items) = Inr src"
      "on_page b this (\<lambda>q. Inr (q\<lparr>array := (array q)(i := array src (snd items))\<rparr>)) = Inr b1"
      "copy_items this (fst items, snd items + 1) (i + 1) sz b1 = Inr b'"
      by (auto simp: copy_items.simps [of this items i sz b] bindE_Inr)
    have f1: "same_headers b b1 \<and> pin_count b1 = pin_count b \<and> calls b1 = calls b
              \<and> (\<forall>x. x \<noteq> this \<longrightarrow> pages b1 x = pages b x)"
      by (rule on_page_frame [OF s(2)]) (auto simp: page_header_def)
    from "1.IH" [OF True s(3)]
    have f2: "same_headers b1 b' \<and> pin_count b' = pin_count b1 \<and> calls b' = calls b1
              \<and> (\<forall>x. x \<noteq> this \<longrightarrow> pages b' x = pages b1 x)" .
    from f1 f2 show ?thesis by (auto intro: same_headers_trans)
  qed
qed

lemma IncreaseSize_header: "page_header (IncreaseSize q n) = page_header q"
  by (simp add: page_header_def IncreaseSize_def)

lemma CopyHalfFrom_frame:
  assumes "CopyHalfFrom this items sz b = Inr b'"
  shows "same_headers b b' \<and> pin_count b' = pin_count b \<and> calls b' = calls b
         \<and> (\<forall>x. x \<noteq> this \<longrightarrow> pages b' x = pages b x)"
proof -
  from assms obtain b1 where s: "copy_items this items 0 sz b = Inr b1"
    "on_page b1 this (\<lambda>q. Inr (IncreaseSize q sz)) = Inr b'"
    by (auto simp: CopyHalfFrom_def bindE_Inr split: if_splits)
  note f1 = copy_items_frame [OF s(1)]
  have f2: "same_headers b1 b' \<and> pin_count b' = pin_count b1 \<and> calls b' = calls b1
              \<and> (\<forall>x. x \<noteq> this \<longrightarrow> pages b' x = pages b1 x)"
    by (rule on_page_frame [OF s(2)]) (auto simp: IncreaseSize_header)
  from f1 f2 show ?thesis by (auto intro: same_headers_trans)
qed

lemma CopyAllFrom_frame:
  assumes "CopyAllFrom this items sz b = Inr b'"
  shows "same_headers b b' \<and> pin_count b' = pin_count b \<and> calls b' = calls b
         \<and> (\<forall>x. x \<noteq> this \<longrightarrow> pages b' x = pages b x)"
proof -
  from assms obtain r b1 where r: "load b this = Inr r"
    and s: "copy_items this items (GetSize r) sz b = Inr b1"
    "on_page b1 this (\<lambda>q. Inr (IncreaseSize q sz)) = Inr b'"
    by (auto simp: CopyAllFrom_def bindE_Inr split: if_splits)
  note f1 = copy_items_frame [OF s(1)]
  have f2: "same_headers b1 b' \<and> pin_count b' = pin_count b1 \<and> calls b' = calls b1
              \<and> (\<forall>x. x \<noteq> this \<longrightarrow> pages b' x = pages b1 x)"
    by (rule on_page_frame [OF s(2)]) (auto simp: IncreaseSize_header)
  from f1 f2 show ?thesis by (auto intro: same_headers_trans)
qed

lemma same_headers_parent: "same_headers b b' \<Longrightarrow> page_parent a b' = page_parent a b"
proof -
  assume "same_headers b b'"
  then have "map_option page_header (pages b' a) = map_option page_header (pages b a)"
    by (simp add: same_headers_def)
  then show ?thesis
    by (cases "pages b a"; cases "pages b' a")
       (auto simp: page_parent_def page_header_def GetParentPageId_def)
qed

text \<open>
  Claim C4, as amended. A split moves slots and nothing else: when \<open>MoveHalfTo\<close>
  returns, every page of the pool has the parent page id it had before, no page other
  than the source and the recipient has changed, and the buffer pool has been neither
  called nor pinned. The children referenced by the moved slots keep their old parent
  page id; reparenting them is left to the caller.
\<close>

theorem MoveHalfTo_keeps_parent_ids:
  assumes "MoveHalfTo this recipient b = Inr b'"
  shows "(\<forall>a. page_parent a b' = page_parent a b)
       \<and> (\<forall>a. a \<noteq> this \<and> a \<noteq> recipient \<longrightarrow> pages b' a = pages b a)
       \<and> pin_count b' = pin_count b \<and> calls b' = calls b"
proof -
  from assms obtain p b1 where p: "load b this = Inr p" and s:
    "CopyHalfFrom recipient (this, GetSize p - c_div (GetSize p) 2) (c_div (GetSize p) 2) b = Inr b1"
    "on_page b1 this (\<lambda>q. Inr (IncreaseSize q (- 1 * c_div (GetSize p) 2))) = Inr b'"
    by (auto simp: MoveHalfTo_def bindE_Inr Let_def)
  note f1 = CopyHalfFrom_frame [OF s(1)]
  have f2: "same_headers b1 b' \<and> pin_count b' = pin_count b1 \<and> calls b' = calls b1
              \<and> (\<forall>x. x \<noteq> this \<longrightarrow> pages b' x = pages b1 x)"
    by (rule on_page_frame [OF s(2)]) (auto simp: IncreaseSize_header)
  from f1 f2 have "same_headers b b'" by (auto intro: same_headers_trans)
  with f1 f2 show ?thesis by (auto simp: same_headers_parent)
qed

subsection \<open>Fetching and unpinning the parent\<close>

lemma same_headers_wf: "same_headers b b' \<Longrightarrow> pool_wf b \<Longrightarrow> pool_wf b'"
  unfolding same_headers_def pool_wf_def
proof (intro allI)
  fix a
  assume h: "\<forall>a. map_option page_header (pages b' a) = map_option page_header (pages b a)"
    and w: "\<forall>a. map_option GetPageId (pages b a) = map_option (\<lambda>p. a) (pages b a)"
  from h have "map_option page_header (pages b' a) = map_option page_header (pages b a)" by simp
  moreover from w have "map_option GetPageId (pages b a) = map_option (\<lambda>p. a) (pages b a)" by simp
  ultimately show "map_option GetPageId (pages b' a) = map_option (\<lambda>p. a) (pages b' a)"
    by (cases "pages b a"; cases "pages b' a") (auto simp: page_header_def GetPageId_def)
qed

lemma pool_wf_load: "pool_wf b \<Longrightarrow> load b a = Inr p \<Longrightarrow> GetPageId p = a"
proof -
  assume w: "pool_wf b" and l: "load b a = Inr p"
  from w have "map_option GetPageId (pages b a) = map_option (\<lambda>p. a) (pages b a)"
    by (simp add: pool_wf_def)
  with l show ?thesis by (simp add: load_Inr)
qed

lemma same_headers_load:
  "same_headers b b' \<Longrightarrow> load b a = Inr p \<Longrightarrow> load b' a = Inr p' \<Longrightarrow>
     page_header p' = page_header p"
proof -
  assume h: "same_headers b b'" and l: "load b a = Inr p" "load b' a = Inr p'"
  from h have "map_option page_header (pages b' a) = map_option page_header (pages b a)"
    by (simp add: same_headers_def)
  with l show ?thesis by (simp add: load_Inr)
qed

lemma FetchPage_cases:
  assumes "FetchPage b a = (r, b2)"
  shows "(r = None \<or> r = Some a) \<and> pages b2 = pages b \<and> calls b2 = calls b @ [Fetch a]
         \<and> (r = Some a \<longrightarrow> pin_count b2 = (pin_count b)(a := pin_count b a + 1))"
  using assms by (auto simp: FetchPage_def split: option.splits)

lemma unpin_after_fetch:
  assumes "pin_count b2 = (pin_count b)(a := pin_count b a + 1)"
    and "calls b2 = calls b @ [Fetch a]"
    and "pin_count b3 = pin_count b2" and "calls b3 = calls b2"
  shows "calls (UnpinPage b3 a d) = calls b @ [Fetch a, Unpin a d]
         \<and> pin_count (UnpinPage b3 a d) = pin_count b"
  using assms by (simp add: UnpinPage_def fun_eq_iff)

lemma Remove_loop_header: "page_header (Remove_loop p index i) = page_header p"
proof (induction p index i rule: Remove_loop.induct)
  case (1 p index i)
  show ?case
  proof (cases "i < GetSize p - 1")
    case True
    from "1.IH" [OF True] True show ?thesis
      by (simp add: Remove_loop.simps [of p index i] page_header_def)
  next
    case False
    then show ?thesis by (simp add: Remove_loop.simps [of p index i])
  qed
qed

lemma Remove_header: "Remove p index = Inr p' \<Longrightarrow> page_header p' = page_header p"
  by (auto simp: Remove_def IncreaseSize_header Remove_loop_header split: if_splits)

lemma SetKeyAt_header: "SetKeyAt p index key = Inr p' \<Longrightarrow> page_header p' = page_header p"
  by (auto simp: SetKeyAt_def page_header_def split: if_splits)

lemma InsertNodeAfter_loop_header:
  "page_header (InsertNodeAfter_loop p v nk nv i) = page_header p"
proof (induction p v nk nv i rule: InsertNodeAfter_loop.induct)
  case (1 p v nk nv i)
  show ?case
  proof (cases "i > 0")
    case False
    then show ?thesis by (simp add: InsertNodeAfter_loop.simps [of p v nk nv i])
  next
    case True
    show ?thesis
    proof (cases "snd (array p (i - 1)) = v")
      case m: True
      with True show ?thesis
        by (simp add: InsertNodeAfter_loop.simps [of p v nk nv i] IncreaseSize_def page_header_def)
    next
      case False
      from "1.IH" [OF True False] True False show ?thesis
        by (simp add: InsertNodeAfter_loop.simps [of p v nk nv i] page_header_def)
    qed
  qed
qed

lemma InsertNodeAfter_header: "page_header (fst (InsertNodeAfter p v nk nv)) = page_header p"
  by (simp add: InsertNodeAfter_def Let_def InsertNodeAfter_loop_header)

lemma header_parent: "page_header p' = page_header p \<Longrightarrow> GetParentPageId p' = GetParentPageId p"
  by (simp add: page_header_def GetParentPageId_def)

lemma header_id: "page_header p' = page_header p \<Longrightarrow> GetPageId p' = GetPageId p"
  by (simp add: page_header_def GetPageId_def)

lemma MoveAllTo_pins:
  assumes wf: "pool_wf b" and run: "MoveAllTo this recipient index_in_parent b = Inr b'"
  shows "\<exists>p. pages b this = Some p
            \<and> calls b' = calls b @ [Fetch (GetParentPageId p), Unpin (GetParentPageId p) True]
            \<and> pin_count b' = pin_count b"
proof -
  from run obtain p b1 p1 where p: "load b this = Inr p"
    and c: "CopyAllFrom recipient (this, 1) (GetSize p - 1) b = Inr b1"
    and p1: "load b1 this = Inr p1"
    and rest0: "(case FetchPage b1 (GetParentPageId p1) of
                   (None, b2) \<Rightarrow> Inl (NullPointer, b2)
                 | (Some parent, b2) \<Rightarrow>
                    bindE (on_page b2 parent (\<lambda>q. Remove q index_in_parent)) (\<lambda>b3.
                    bindE (load b3 parent) (\<lambda>q. Inr (UnpinPage b3 (GetPageId q) True)))) = Inr b'"
    by (auto simp: MoveAllTo_def bindE_Inr)
  obtain r b2 where f: "FetchPage b1 (GetParentPageId p1) = (r, b2)"
    by (cases "FetchPage b1 (GetParentPageId p1)")
  from rest0 f have rest: "(case r of None \<Rightarrow> Inl (NullPointer, b2)
                | Some parent \<Rightarrow>
                    bindE (on_page b2 parent (\<lambda>q. Remove q index_in_parent)) (\<lambda>b3.
                    bindE (load b3 parent) (\<lambda>q. Inr (UnpinPage b3 (GetPageId q) True)))) = Inr b'"
    by simp
  let ?a = "GetParentPageId p1"
  note fc = FetchPage_cases [OF f]
  from rest fc have r: "r = Some ?a" by (auto split: option.splits)
  with rest obtain b3 q where o: "on_page b2 ?a (\<lambda>q. Remove q index_in_parent) = Inr b3"
    and q: "load b3 ?a = Inr q" and b': "b' = UnpinPage b3 (GetPageId q) True"
    by (auto simp: bindE_Inr)
  note f1 = CopyAllFrom_frame [OF c]
  have f3: "same_headers b2 b3 \<and> pin_count b3 = pin_count b2 \<and> calls b3 = calls b2
            \<and> (\<forall>x. x \<noteq> ?a \<longrightarrow> pages b3 x = pages b2 x)"
    by (rule on_page_frame [OF o]) (rule Remove_header)
  have "same_headers b1 b2" using fc by (simp add: same_headers_def)
  with f1 f3 have "same_headers b b3" by (blast intro: same_headers_trans)
  then have "pool_wf b3" using wf by (rule same_headers_wf)
  then have qid: "GetPageId q = ?a" using q by (rule pool_wf_load)
  have "page_header p1 = page_header p"
    using same_headers_load [OF _ p p1] f1 by blast
  then have par: "?a = GetParentPageId p" by (rule header_parent)
  from fc r f1 have "pin_count b2 = (pin_count b)(?a := pin_count b ?a + 1)"
    "calls b2 = calls b @ [Fetch ?a]" by simp_all
  from unpin_after_fetch [OF this, of b3 True] f3 b' qid par p show ?thesis
    by (simp add: load_Inr)
qed

lemma CopyLastFrom_pins:
  assumes wf: "pool_wf b" and run: "CopyLastFrom this pair b = Inr b'"
  shows "\<exists>p. pages b this = Some p
            \<and> calls b' = calls b @ [Fetch (GetParentPageId p), Unpin (GetParentPageId p) True]
            \<and> pin_count b' = pin_count b"
proof -
  from run obtain p where p: "load b this = Inr p"
    and rest0: "(case FetchPage b (GetParentPageId p) of
               (None, b1) \<Rightarrow> Inl (NullPointer, b1)
             | (Some parent, b1) \<Rightarrow>
                 bindE (load b1 parent) (\<lambda>pp.
                 let index = ValueIndex pp (GetPageId p)
                 in bindE (abort_in b1 (KeyAt pp (index + 1))) (\<lambda>key.
                    bindE (on_page b1 this (\<lambda>q. Inr (IncreaseSize
                             (q\<lparr>array := (array q)(GetSize q := (key, snd pair))\<rparr>) 1))) (\<lambda>b2.
                    bindE (on_page b2 parent (\<lambda>q. SetKeyAt q (index + 1) (fst pair))) (\<lambda>b3.
                    bindE (load b3 parent) (\<lambda>q.
                    Inr (UnpinPage b3 (GetPageId q) True))))))) = Inr b'"
    by (auto simp: CopyLastFrom_def bindE_Inr split: if_splits)
  let ?a = "GetParentPageId p"
  obtain r b1 where f: "FetchPage b ?a = (r, b1)" by (cases "FetchPage b ?a")
  note fc = FetchPage_cases [OF f]
  from rest0 f fc have r: "r = Some ?a" by (auto split: option.splits)
  with rest0 f obtain pp key b2 b3 q where pp: "load b1 ?a = Inr pp" and
        o2: "on_page b1 this (\<lambda>q. Inr (IncreaseSize
                             (q\<lparr>array := (array q)(GetSize q := (key, snd pair))\<rparr>) 1)) = Inr b2"
    and o3: "on_page b2 ?a (\<lambda>q. SetKeyAt q (ValueIndex pp (GetPageId p) + 1) (fst pair)) = Inr b3"
    and q: "load b3 ?a = Inr q" and b': "b' = UnpinPage b3 (GetPageId q) True"
    by (auto simp: bindE_Inr Let_def)
  have f2: "same_headers b1 b2 \<and> pin_count b2 = pin_count b1 \<and> calls b2 = calls b1
            \<and> (\<forall>x. x \<noteq> this \<longrightarrow> pages b2 x = pages b1 x)"
    by (rule on_page_frame [OF o2]) (auto simp: IncreaseSize_def page_header_def)
  have f3: "same_headers b2 b3 \<and> pin_count b3 = pin_count b2 \<and> calls b3 = calls b2
            \<and> (\<forall>x. x \<noteq> ?a \<longrightarrow> pages b3 x = pages b2 x)"
    by (rule on_page_frame [OF o3]) (rule SetKeyAt_header)
  have "same_headers b b1" using fc by (simp add: same_headers_def)
  with f2 f3 have "same_headers b b3" by (blast intro: same_headers_trans)
  then have "pool_wf b3" using wf by (rule same_headers_wf)
  then have qid: "GetPageId q = ?a" using q by (rule pool_wf_load)
  from fc r have "pin_count b1 = (pin_count b)(?a := pin_count b ?a + 1)"
    "calls b1 = calls b @ [Fetch ?a]" by simp_all
  from unpin_after_fetch [OF this, of b3 True] f2 f3 b' qid p show ?thesis
    by (simp add: load_Inr)
qed

lemma CopyFirstFrom_pins:
  assumes wf: "pool_wf b" and run: "CopyFirstFrom this pair parent_index b = Inr b'"
  shows "\<exists>p. pages b this = Some p
            \<and> calls b' = calls b @ [Fetch (GetParentPageId p), Unpin (GetParentPageId p) True]
            \<and> pin_count b' = pin_count b"
proof -
  from run obtain p where p: "load b this = Inr p"
    and rest0: "(case FetchPage b (GetParentPageId p) of
               (None, b1) \<Rightarrow> Inl (NullPointer, b1)
             | (Some parent, b1) \<Rightarrow>
                 bindE (load b1 parent) (\<lambda>pp.
                 bindE (abort_in b1 (KeyAt pp parent_index)) (\<lambda>key.
                 bindE (on_page b1 parent (\<lambda>q. SetKeyAt q parent_index (fst pair))) (\<lambda>b2.
                 bindE (on_page b2 this (\<lambda>q. Inr (fst (InsertNodeAfter q
                          (snd (array q 0)) key (snd (array q 0)))))) (\<lambda>b3.
                 bindE (on_page b3 this (\<lambda>q. Inr
                          (q\<lparr>array := (array q)(0 := (fst (array q 0), snd pair))\<rparr>))) (\<lambda>b4.
                 bindE (load b4 parent) (\<lambda>q.
                 Inr (UnpinPage b4 (GetPageId q) True)))))))) = Inr b'"
    by (auto simp: CopyFirstFrom_def bindE_Inr split: if_splits)
  let ?a = "GetParentPageId p"
  obtain r b1 where f: "FetchPage b ?a = (r, b1)" by (cases "FetchPage b ?a")
  note fc = FetchPage_cases [OF f]
  from rest0 f fc have r: "r = Some ?a" by (auto split: option.splits)
  with rest0 f obtain key b2 b3 b4 q where
        o2: "on_page b1 ?a (\<lambda>q. SetKeyAt q parent_index (fst pair)) = Inr b2"
    and o3: "on_page b2 this (\<lambda>q. Inr (fst (InsertNodeAfter q
                          (snd (array q 0)) key (snd (array q 0))))) = Inr b3"
    and o4: "on_page b3 this (\<lambda>q. Inr
                          (q\<lparr>array := (array q)(0 := (fst (array q 0), snd pair))\<rparr>)) = Inr b4"
    and q: "load b4 ?a = Inr q" and b': "b' = UnpinPage b4 (GetPageId q) True"
    by (auto simp: bindE_Inr)
  have f2: "same_headers b1 b2 \<and> pin_count b2 = pin_count b1 \<and> calls b2 = calls b1
            \<and> (\<forall>x. x \<noteq> ?a \<longrightarrow> pages b2 x = pages b1 x)"
    by (rule on_page_frame [OF o2]) (rule SetKeyAt_header)
  have f3: "same_headers b2 b3 \<and> pin_count b3 = pin_count b2 \<and> calls b3 = calls b2
            \<and> (\<forall>x. x \<noteq> this \<longrightarrow> pages b3 x = pages b2 x)"
    by (rule on_page_frame [OF o3]) (auto simp: InsertNodeAfter_header)
  have f4: "same_headers b3 b4 \<and> pin_count b4 = pin_count b3 \<and> calls b4 = calls b3
            \<and> (\<forall>x. x \<noteq> this \<longrightarrow> pages b4 x = pages b3 x)"
    by (rule on_page_frame [OF o4]) (auto simp: page_header_def)
  have "same_headers b b1" using fc by (simp add: same_headers_def)
  with f2 f3 f4 have "same_headers b b4" by (blast intro: same_headers_trans)
  then have "pool_wf b4" using wf by (rule same_headers_wf)
  then have qid: "GetPageId q = ?a" using q by (rule pool_wf_load)
  from fc r have "pin_count b1 = (pin_count b)(?a := pin_count b ?a + 1)"
    "calls b1 = calls b @ [Fetch ?a]" by simp_all
  from unpin_after_fetch [OF this, of b4 True] f2 f3 f4 b' qid p show ?thesis
    by (simp add: load_Inr)
qed

subsection \<open>Stopping before the parent is unpinned\<close>

lemma bindE_Inl: "(bindE m f = Inl x) = (m = Inl x \<or> (\<exists>y. m = Inr y \<and> f y = Inl x))"
  by (cases m) (simp_all add: bindE_def)

lemma load_Inl: "load b a = Inl (e, b') \<Longrightarrow> b' = b"
  by (simp add: load_def split: option.splits)

lemma abort_in_Inl: "abort_in b m = Inl (e, b') \<Longrightarrow> b' = b"
  by (cases m) (simp_all add: abort_in_def)

lemma on_page_Inl: "on_page b a f = Inl (e, b') \<Longrightarrow> b' = b"
  by (auto simp: on_page_def bindE_Inl dest: load_Inl abort_in_Inl)

lemma on_page_quiet:
  "on_page b a f = Inr b' \<Longrightarrow> pin_count b' = pin_count b \<and> calls b' = calls b"
  by (auto simp: on_page_def bindE_Inr store_def)

lemma copy_items_Inl:
  "copy_items this items i sz b = Inl (e, b') \<Longrightarrow>
     pin_count b' = pin_count b \<and> calls b' = calls b"
proof (induction this items i sz b rule: copy_items.induct)
  case (1 this items i sz b)
  show ?case
  proof (cases "i < sz")
    case False
    with "1.prems" show ?thesis by (simp add: copy_items.simps [of this items i sz b])
  next
    case True
    from "1.prems" True have
      "load b (fst items) = Inl (e, b')
       \<or> (\<exists>src. load b (fst items) = Inr src
            \<and> (on_page b this
                  (\<lambda>q. Inr (q\<lparr>array := (array q)(i := array src (snd items))\<rparr>)) = Inl (e, b')
               \<or> (\<exists>b1. on_page b this
                    (\<lambda>q. Inr (q\<lparr>array := (array q)(i := array src (snd items))\<rparr>)) = Inr b1
                  \<and> copy_items this (fst items, snd items + 1) (i + 1) sz b1 = Inl (e, b'))))"
      by (simp add: copy_items.simps [of this items i sz b] bindE_Inl)
    then show ?thesis
    proof (elim disjE exE conjE)
      assume "load b (fst items) = Inl (e, b')"
      then show ?thesis by (auto dest: load_Inl)
    next
      fix src
      assume "on_page b this
                (\<lambda>q. Inr (q\<lparr>array := (array q)(i := array src (snd items))\<rparr>)) = Inl (e, b')"
      then show ?thesis by (auto dest: on_page_Inl)
    next
      fix src b1
      assume s: "load b (fst items) = Inr src"
        and o: "on_page b this
                  (\<lambda>q. Inr (q\<lparr>array := (array q)(i := array src (snd items))\<rparr>)) = Inr b1"
        and c: "copy_items this (fst items, snd items + 1) (i + 1) sz b1 = Inl (e, b')"
      from "1.IH" [OF True c] on_page_quiet [OF o] show ?thesis by simp
    qed
  qed
qed

lemma CopyAllFrom_Inl:
  assumes "CopyAllFrom this items sz b = Inl (e, b')"
  shows "pin_count b' = pin_count b \<and> calls b' = calls b"
proof -
  from assms have
    "load b this = Inl (e, b')
     \<or> (\<exists>r. load b this = Inr r
          \<and> ((e, b') = (AssertionFailed, b)
             \<or> copy_items this items (GetSize r) sz b = Inl (e, b')
             \<or> (\<exists>b1. copy_items this items (GetSize r) sz b = Inr b1
                   \<and> on_page b1 this (\<lambda>q. Inr (IncreaseSize q sz)) = Inl (e, b'))))"
    by (auto simp: CopyAllFrom_def bindE_Inl split: if_splits)
  then show ?thesis
    by (auto dest: load_Inl copy_items_Inl on_page_Inl copy_items_frame)
qed

lemma FetchPage_None:
  "FetchPage b a = (None, b1) \<Longrightarrow>
     pages b a = None \<and> pin_count b1 = pin_count b \<and> calls b1 = calls b @ [Fetch a]"
  by (auto simp: FetchPage_def split: option.splits)

lemma FetchPage_Some:
  "FetchPage b a = (Some x, b1) \<Longrightarrow>
     x = a \<and> pages b a \<noteq> None \<and> pages b1 = pages b
     \<and> pin_count b1 = (pin_count b)(a := pin_count b a + 1)
     \<and> calls b1 = calls b @ [Fetch a]"
  by (auto simp: FetchPage_def split: option.splits)

lemma same_headers_None: "same_headers b b' \<Longrightarrow> (pages b' a = None) = (pages b a = None)"
proof -
  assume "same_headers b b'"
  then have "map_option page_header (pages b' a) = map_option page_header (pages b a)"
    by (simp add: same_headers_def)
  then show ?thesis by (cases "pages b a"; cases "pages b' a") simp_all
qed

lemma MoveAllTo_tail_Inl:
  assumes "bindE (on_page b2 parent (\<lambda>q. Remove q index_in_parent)) (\<lambda>b3.
           bindE (load b3 parent) (\<lambda>q. Inr (UnpinPage b3 (GetPageId q) True))) = Inl (e, b')"
  shows "pin_count b' = pin_count b2 \<and> calls b' = calls b2"
proof -
  from assms have
    "on_page b2 parent (\<lambda>q. Remove q index_in_parent) = Inl (e, b')
     \<or> (\<exists>b3. on_page b2 parent (\<lambda>q. Remove q index_in_parent) = Inr b3
           \<and> load b3 parent = Inl (e, b'))"
    by (auto simp: bindE_Inl)
  then show ?thesis
    by (auto dest: on_page_Inl load_Inl on_page_quiet)
qed

lemma MoveAllTo_stops:
  assumes run: "MoveAllTo this recipient index_in_parent b = Inl (e, b')"
  shows "(calls b' = calls b \<and> pin_count b' = pin_count b)
       \<or> (\<exists>p. pages b this = Some p
             \<and> calls b' = calls b @ [Fetch (GetParentPageId p)]
             \<and> (if pages b (GetParentPageId p) = None then pin_count b' = pin_count b
                 else pin_count b' = (pin_count b)
                        (GetParentPageId p := pin_count b (GetParentPageId p) + 1)))"
proof -
  let ?tail = "\<lambda>b1 p1. case FetchPage b1 (GetParentPageId p1) of
                   (None, b2) \<Rightarrow> Inl (NullPointer, b2)
                 | (Some parent, b2) \<Rightarrow>
                    bindE (on_page b2 parent (\<lambda>q. Remove q index_in_parent)) (\<lambda>b3.
                    bindE (load b3 parent) (\<lambda>q. Inr (UnpinPage b3 (GetPageId q) True)))"
  from run have
    "load b this = Inl (e, b')
     \<or> (\<exists>p. load b this = Inr p
          \<and> (CopyAllFrom recipient (this, 1) (GetSize p - 1) b = Inl (e, b')
             \<or> (\<exists>b1. CopyAllFrom recipient (this, 1) (GetSize p - 1) b = Inr b1
                   \<and> (load b1 this = Inl (e, b')
                      \<or> (\<exists>p1. load b1 this = Inr p1 \<and> ?tail b1 p1 = Inl (e, b'))))))"
    by (simp add: MoveAllTo_def bindE_Inl)
  then show ?thesis
  proof (elim disjE exE conjE)
    assume "load b this = Inl (e, b')"
    then show ?thesis by (auto dest: load_Inl)
  next
    fix p
    assume "CopyAllFrom recipient (this, 1) (GetSize p - 1) b = Inl (e, b')"
    then show ?thesis by (auto dest: CopyAllFrom_Inl)
  next
    fix p b1
    assume c: "CopyAllFrom recipient (this, 1) (GetSize p - 1) b = Inr b1"
      and "load b1 this = Inl (e, b')"
    then have "b' = b1" by (auto dest: load_Inl)
    with CopyAllFrom_frame [OF c] show ?thesis by simp
  next
    fix p b1 p1
    assume p: "load b this = Inr p"
      and c: "CopyAllFrom recipient (this, 1) (GetSize p - 1) b = Inr b1"
      and p1: "load b1 this = Inr p1"
      and t: "?tail b1 p1 = Inl (e, b')"
    note f1 = CopyAllFrom_frame [OF c]
    let ?a = "GetParentPageId p1"
    have "page_header p1 = page_header p"
      using same_headers_load [OF _ p p1] f1 by blast
    then have par: "?a = GetParentPageId p" by (rule header_parent)
    from f1 have none: "(pages b1 ?a = None) = (pages b ?a = None)"
      by (simp add: same_headers_None)
    obtain r b2 where f: "FetchPage b1 ?a = (r, b2)" by (cases "FetchPage b1 ?a")
    have "calls b' = calls b @ [Fetch ?a]
          \<and> (if pages b ?a = None then pin_count b' = pin_count b
              else pin_count b' = (pin_count b)(?a := pin_count b ?a + 1))"
    proof (cases r)
      case None
      with t f have "b' = b2" by simp
      with FetchPage_None [OF f [unfolded None]] f1 none show ?thesis by simp
    next
      case (Some x)
      with t f have "bindE (on_page b2 x (\<lambda>q. Remove q index_in_parent)) (\<lambda>b3.
           bindE (load b3 x) (\<lambda>q. Inr (UnpinPage b3 (GetPageId q) True))) = Inl (e, b')"
        by simp
      from MoveAllTo_tail_Inl [OF this] FetchPage_Some [OF f [unfolded Some]] f1 none
      show ?thesis by auto
    qed
    with par p show ?thesis by (simp add: load_Inr)
  qed
qed

lemma bind_load_InlE:
  assumes "bindE (load b a) g = Inl (e, b')"
  obtains "b' = b" | p where "load b a = Inr p" and "g p = Inl (e, b')"
  using assms by (auto simp: bindE_Inl dest: load_Inl)

lemma bind_abort_InlE:
  assumes "bindE (abort_in b m) g = Inl (e, b')"
  obtains "b' = b" | x where "g x = Inl (e, b')"
  using assms by (auto simp: bindE_Inl dest: abort_in_Inl)

lemma bind_on_page_InlE:
  assumes "bindE (on_page b a f) g = Inl (e, b')"
  obtains "b' = b"
  | b1 where "pin_count b1 = pin_count b" and "calls b1 = calls b" and "g b1 = Inl (e, b')"
  using assms by (auto simp: bindE_Inl dest: on_page_Inl on_page_quiet)

lemma CopyLastFrom_tail_Inl:
  assumes "bindE (load b1 parent) (\<lambda>pp.
                 let index = ValueIndex pp pid
                 in bindE (abort_in b1 (KeyAt pp (index + 1))) (\<lambda>key.
                    bindE (on_page b1 this (\<lambda>q. Inr (IncreaseSize
                             (q\<lparr>array := (array q)(GetSize q := (key, snd pair))\<rparr>) 1))) (\<lambda>b2.
                    bindE (on_page b2 parent (\<lambda>q. SetKeyAt q (index + 1) (fst pair))) (\<lambda>b3.
                    bindE (load b3 parent) (\<lambda>q.
                    Inr (UnpinPage b3 (GetPageId q) True)))))) = Inl (e, b')"
  shows "pin_count b' = pin_count b1 \<and> calls b' = calls b1"
  using assms unfolding Let_def
  by (elim bind_load_InlE bind_abort_InlE bind_on_page_InlE) simp_all

lemma CopyFirstFrom_tail_Inl:
  assumes "bindE (load b1 parent) (\<lambda>pp.
                 bindE (abort_in b1 (KeyAt pp parent_index)) (\<lambda>key.
                 bindE (on_page b1 parent (\<lambda>q. SetKeyAt q parent_index (fst pair))) (\<lambda>b2.
                 bindE (on_page b2 this (\<lambda>q. Inr (fst (InsertNodeAfter q
                          (snd (array q 0)) key (snd (array q 0)))))) (\<lambda>b3.
                 bindE (on_page b3 this (\<lambda>q. Inr
                          (q\<lparr>array := (array q)(0 := (fst (array q 0), snd pair))\<rparr>))) (\<lambda>b4.
                 bindE (load b4 parent) (\<lambda>q.
                 Inr (UnpinPage b4 (GetPageId q) True))))))) = Inl (e, b')"
  shows "pin_count b' = pin_count b1 \<and> calls b' = calls b1"
  using assms
  by (elim bind_load_InlE bind_abort_InlE bind_on_page_InlE) simp_all

lemma CopyLastFrom_stops:
  assumes run: "CopyLastFrom this pair b = Inl (e, b')"
  shows "(calls b' = calls b \<and> pin_count b' = pin_count b)
       \<or> (\<exists>p. pages b this = Some p
             \<and> calls b' = calls b @ [Fetch (GetParentPageId p)]
             \<and> (if pages b (GetParentPageId p) = None then pin_count b' = pin_count b
                 else pin_count b' = (pin_count b)
                        (GetParentPageId p := pin_count b (GetParentPageId p) + 1)))"
proof -
  let ?tail = "\<lambda>p. case FetchPage b (GetParentPageId p) of
               (None, b1) \<Rightarrow> Inl (NullPointer, b1)
             | (Some parent, b1) \<Rightarrow>
                 bindE (load b1 parent) (\<lambda>pp.
                 let index = ValueIndex pp (GetPageId p)
                 in bindE (abort_in b1 (KeyAt pp (index + 1))) (\<lambda>key.
                    bindE (on_page b1 this (\<lambda>q. Inr (IncreaseSize
                             (q\<lparr>array := (array q)(GetSize q := (key, snd pair))\<rparr>) 1))) (\<lambda>b2.
                    bindE (on_page b2 parent (\<lambda>q. SetKeyAt q (index + 1) (fst pair))) (\<lambda>b3.
                    bindE (load b3 parent) (\<lambda>q.
                    Inr (UnpinPage b3 (GetPageId q) True))))))"
  from run have
    "load b this = Inl (e, b')
     \<or> (\<exists>p. load b this = Inr p
          \<and> ((e, b') = (AssertionFailed, b) \<or> ?tail p = Inl (e, b')))"
    by (auto simp: CopyLastFrom_def bindE_Inl split: if_splits)
  then show ?thesis
  proof (elim disjE exE conjE)
    assume "load b this = Inl (e, b')"
    then show ?thesis by (auto dest: load_Inl)
  next
    fix p
    assume "(e, b') = (AssertionFailed, b)"
    then show ?thesis by simp
  next
    fix p
    assume p: "load b this = Inr p" and t: "?tail p = Inl (e, b')"
    let ?a = "GetParentPageId p"
    obtain r b1 where f: "FetchPage b ?a = (r, b1)" by (cases "FetchPage b ?a")
    have "calls b' = calls b @ [Fetch ?a]
          \<and> (if pages b ?a = None then pin_count b' = pin_count b
              else pin_count b' = (pin_count b)(?a := pin_count b ?a + 1))"
    proof (cases r)
      case None
      with t f have "b' = b1" by simp
      with FetchPage_None [OF f [unfolded None]] show ?thesis by simp
    next
      case (Some x)
      with t f have "bindE (load b1 x) (\<lambda>pp.
                 let index = ValueIndex pp (GetPageId p)
                 in bindE (abort_in b1 (KeyAt pp (index + 1))) (\<lambda>key.
                    bindE (on_page b1 this (\<lambda>q. Inr (IncreaseSize
                             (q\<lparr>array := (array q)(GetSize q := (key, snd pair))\<rparr>) 1))) (\<lambda>b2.
                    bindE (on_page b2 x (\<lambda>q. SetKeyAt q (index + 1) (fst pair))) (\<lambda>b3.
                    bindE (load b3 x) (\<lambda>q.
                    Inr (UnpinPage b3 (GetPageId q) True)))))) = Inl (e, b')"
        by simp
      from CopyLastFrom_tail_Inl [OF this] FetchPage_Some [OF f [unfolded Some]]
      show ?thesis by auto
    qed
    with p show ?thesis by (simp add: load_Inr)
  qed
qed

lemma CopyFirstFrom_stops:
  assumes run: "CopyFirstFrom this pair parent_index b = Inl (e, b')"
  shows "(calls b' = calls b \<and> pin_count b' = pin_count b)
       \<or> (\<exists>p. pages b this = Some p
             \<and> calls b' = calls b @ [Fetch (GetParentPageId p)]
             \<and> (if pages b (GetParentPageId p) = None then pin_count b' = pin_count b
                 else pin_count b' = (pin_count b)
                        (GetParentPageId p := pin_count b (GetParentPageId p) + 1)))"
proof -
  let ?tail = "\<lambda>p. case FetchPage b (GetParentPageId p) of
               (None, b1) \<Rightarrow> Inl (NullPointer, b1)
             | (Some parent, b1) \<Rightarrow>
                 bindE (load b1 parent) (\<lambda>pp.
                 bindE (abort_in b1 (KeyAt pp parent_index)) (\<lambda>key.
                 bindE (on_page b1 parent (\<lambda>q. SetKeyAt q parent_index (fst pair))) (\<lambda>b2.
                 bindE (on_page b2 this (\<lambda>q. Inr (fst (InsertNodeAfter q
                          (snd (array q 0)) key (snd (array q 0)))))) (\<lambda>b3.
                 bindE (on_page b3 this (\<lambda>q. Inr
                          (q\<lparr>array := (array q)(0 := (fst (array q 0), snd pair))\<rparr>))) (\<lambda>b4.
                 bindE (load b4 parent) (\<lambda>q.
                 Inr (UnpinPage b4 (GetPageId q) True)))))))"
  from run have
    "load b this = Inl (e, b')
     \<or> (\<exists>p. load b this = Inr p
          \<and> ((e, b') = (AssertionFailed, b) \<or> ?tail p = Inl (e, b')))"
    by (auto simp: CopyFirstFrom_def bindE_Inl split: if_splits)
  then show ?thesis
  proof (elim disjE exE conjE)
    assume "load b this = Inl (e, b')"
    then show ?thesis by (auto dest: load_Inl)
  next
    fix p
    assume "(e, b') = (AssertionFailed, b)"
    then show ?thesis by simp
  next
    fix p
    assume p: "load b this = Inr p" and t: "?tail p = Inl (e, b')"
    let ?a = "GetParentPageId p"
    obtain r b1 where f: "FetchPage b ?a = (r, b1)" by (cases "FetchPage b ?a")
    have "calls b' = calls b @ [Fetch ?a]
          \<and> (if pages b ?a = None then pin_count b' = pin_count b
              else pin_count b' = (pin_count b)(?a := pin_count b ?a + 1))"
    proof (cases r)
      case None
      with t f have "b' = b1" by simp
      with FetchPage_None [OF f [unfolded None]] show ?thesis by simp
    next
      case (Some x)
      with t f have "bindE (load b1 x) (\<lambda>pp.
                 bindE (abort_in b1 (KeyAt pp parent_index)) (\<lambda>key.
                 bindE (on_page b1 x (\<lambda>q. SetKeyAt q parent_index (fst pair))) (\<lambda>b2.
                 bindE (on_page b2 this (\<lambda>q. Inr (fst (InsertNodeAfter q
                          (snd (array q 0)) key (snd (array q 0)))))) (\<lambda>b3.
                 bindE (on_page b3 this (\<lambda>q. Inr
                          (q\<lparr>array := (array q)(0 := (fst (array q 0), snd pair))\<rparr>))) (\<lambda>b4.
                 bindE (load b4 x) (\<lambda>q.
                 Inr (UnpinPage b4 (GetPageId q) True))))))) = Inl (e, b')"
        by simp
      from CopyFirstFrom_tail_Inl [OF this] FetchPage_Some [OF f [unfolded Some]]
      show ?thesis by auto
    qed
    with p show ?thesis by (simp add: load_Inr)
  qed
qed

text \<open>
  Claim C9, as amended. In a pool that holds every page under the page's own id,
  whenever \<open>MoveAllTo\<close>, \<open>CopyLastFrom\<close> or \<open>CopyFirstFrom\<close> returns, the calls it
  made to the buffer pool are exactly one fetch of the parent of the page it was called
  on followed by one unpin of that parent, marked dirty, and every pin count is what it
  was before the call. Whenever one of them stops instead, at a failed assertion or a
  null pointer, it has made no unpin: either it has made no call at all and no pin count
  has changed, or it has made the one fetch of the parent and the parent, when the pool
  holds it, is left with one pin more than before the call.
\<close>

theorem parent_pins_on_return_and_stop:
  assumes "pool_wf b"
  shows "(MoveAllTo this recipient index_in_parent b = Inr b1 \<longrightarrow>
            (\<exists>p. pages b this = Some p
               \<and> calls b1 = calls b @ [Fetch (GetParentPageId p), Unpin (GetParentPageId p) True]
               \<and> pin_count b1 = pin_count b))
       \<and> (CopyLastFrom this pair b = Inr b2 \<longrightarrow>
            (\<exists>p. pages b this = Some p
               \<and> calls b2 = calls b @ [Fetch (GetParentPageId p), Unpin (GetParentPageId p) True]
               \<and> pin_count b2 = pin_count b))
       \<and> (CopyFirstFrom this pair parent_index b = Inr b3 \<longrightarrow>
            (\<exists>p. pages b this = Some p
               \<and> calls b3 = calls b @ [Fetch (GetParentPageId p), Unpin (GetParentPageId p) True]
               \<and> pin_count b3 = pin_count b))
       \<and> (MoveAllTo this recipient index_in_parent b = Inl (e1, s1) \<longrightarrow>
            (calls s1 = calls b \<and> pin_count s1 = pin_count b)
            \<or> (\<exists>p. pages b this = Some p
                  \<and> calls s1 = calls b @ [Fetch (GetParentPageId p)]
                  \<and> (if pages b (GetParentPageId p) = None then pin_count s1 = pin_count b
                      else pin_count s1 = (pin_count b)
                             (GetParentPageId p := pin_count b (GetParentPageId p) + 1))))
       \<and> (CopyLastFrom this pair b = Inl (e2, s2) \<longrightarrow>
            (calls s2 = calls b \<and> pin_count s2 = pin_count b)
            \<or> (\<exists>p. pages b this = Some p
                  \<and> calls s2 = calls b @ [Fetch (GetParentPageId p)]
                  \<and> (if pages b (GetParentPageId p) = None then pin_count s2 = pin_count b
                      else pin_count s2 = (pin_count b)
                             (GetParentPageId p := pin_count b (GetParentPageId p) + 1))))
       \<and> (CopyFirstFrom this pair parent_index b = Inl (e3, s3) \<longrightarrow>
            (calls s3 = calls b \<and> pin_count s3 = pin_count b)
            \<or> (\<exists>p. pages b this = Some p
                  \<and> calls s3 = calls b @ [Fetch (GetParentPageId p)]
                  \<and> (if pages b (GetParentPageId p) = None then pin_count s3 = pin_count b
                      else pin_count s3 = (pin_count b)
                             (GetParentPageId p := pin_count b (GetParentPageId p) + 1))))"
proof (intro conjI impI)
  assume "MoveAllTo this recipient index_in_parent b = Inr b1"
  then show "\<exists>p. pages b this = Some p
               \<and> calls b1 = calls b @ [Fetch (GetParentPageId p), Unpin (GetParentPageId p) True]
               \<and> pin_count b1 = pin_count b"
    by (rule MoveAllTo_pins [OF assms])
next
  assume "CopyLastFrom this pair b = Inr b2"
  then show "\<exists>p. pages b this = Some p
               \<and> calls b2 = calls b @ [Fetch (GetParentPageId p), Unpin (GetParentPageId p) True]
               \<and> pin_count b2 = pin_count b"
    by (rule CopyLastFrom_pins [OF assms])
next
  assume "CopyFirstFrom this pair parent_index b = Inr b3"
  then show "\<exists>p. pages b this = Some p
               \<and> calls b3 = calls b @ [Fetch (GetParentPageId p), Unpin (GetParentPageId p) True]
               \<and> pin_count b3 = pin_count b"
    by (rule CopyFirstFrom_pins [OF assms])
next
  assume "MoveAllTo this recipient index_in_parent b = Inl (e1, s1)"
  then show "(calls s1 = calls b \<and> pin_count s1 = pin_count b)
            \<or> (\<exists>p. pages b this = Some p
                  \<and> calls s1 = calls b @ [Fetch (GetParentPageId p)]
                  \<and> (if pages b (GetParentPageId p) = None then pin_count s1 = pin_count b
                      else pin_count s1 = (pin_count b)
                             (GetParentPageId p := pin_count b (GetParentPageId p) + 1)))"
    by (rule MoveAllTo_stops)
next
  assume "CopyLastFrom this pair b = Inl (e2, s2)"
  then show "(calls s2 = calls b \<and> pin_count s2 = pin_count b)
            \<or> (\<exists>p. pages b this = Some p
                  \<and> calls s2 = calls b @ [Fetch (GetParentPageId p)]
                  \<and> (if pages b (GetParentPageId p) = None then pin_count s2 = pin_count b
                      else pin_count s2 = (pin_count b)
                             (GetParentPageId p := pin_count b (GetParentPageId p) + 1)))"
    by (rule CopyLastFrom_stops)
next
  assume "CopyFirstFrom this pair parent_index b = Inl (e3, s3)"
  then show "(calls s3 = calls b \<and> pin_count s3 = pin_count b)
            \<or> (\<exists>p. pages b this = Some p
                  \<and> calls s3 = calls b @ [Fetch (GetParentPageId p)]
                  \<and> (if pages b (GetParentPageId p) = None then pin_count s3 = pin_count b
                      else pin_count s3 = (pin_count b)
                             (GetParentPageId p := pin_count b (GetParentPageId p) + 1)))"
    by (rule CopyFirstFrom_stops)
qed

section \<open>The operations on the example pools\<close>

lemma merge_pool_wf: "pool_wf merge_pool"
  by (simp add: pool_wf_def merge_pool_def mk_pool_def mk_page_def GetPageId_def)

text \<open>
  What an operation returned is read the same whether or not the pool of a stop is kept;
  dropping it leaves a value that can be computed.
\<close>

lemma map_sum_fst_id: "(map_sum fst f r = Inr y) = (map_sum id f r = Inr y)"
  by (cases r) simp_all

lemma returns_some: "\<not> isl r \<Longrightarrow> \<exists>b. r = Inr b"
  by (cases r) simp_all

lemma merge_pool_returns:
  "\<not> isl (MoveAllTo 2 1 1 merge_pool)"
  "\<not> isl (CopyLastFrom 1 (60, 201) merge_pool)"
  "\<not> isl (CopyFirstFrom 2 (20, 102) 1 merge_pool)"
  by code_simp+

lemma merge_pool_parents:
  "pages merge_pool 1 = Some p \<Longrightarrow> GetParentPageId p = 9"
  "pages merge_pool 2 = Some p \<Longrightarrow> GetParentPageId p = 9"
  by (auto simp: merge_pool_def mk_pool_def mk_page_def GetParentPageId_def)

lemma merge_pool_calls: "calls merge_pool = []"
  by (simp add: merge_pool_def mk_pool_def)

lemma merge_pool_stops:
  "isl (MoveAllTo 2 1 5 merge_pool)"
  "isl (CopyLastFrom 2 (60, 201) merge_pool)"
  "isl (CopyFirstFrom 2 (20, 102) 7 merge_pool)"
  by code_simp+

lemma stops_some: "isl r \<Longrightarrow> \<exists>e b. r = Inl (e, b)"
  by (cases r) auto

theorem parent_pins_on_return_and_stop_witness:
  "map_sum id calls (MoveAllTo 2 1 1 merge_pool) = Inr [Fetch 9, Unpin 9 True]
   \<and> map_sum id pin_count (MoveAllTo 2 1 1 merge_pool) = Inr (pin_count merge_pool)
   \<and> map_sum id calls (CopyLastFrom 1 (60, 201) merge_pool) = Inr [Fetch 9, Unpin 9 True]
   \<and> map_sum id pin_count (CopyLastFrom 1 (60, 201) merge_pool) = Inr (pin_count merge_pool)
   \<and> map_sum id calls (CopyFirstFrom 2 (20, 102) 1 merge_pool) = Inr [Fetch 9, Unpin 9 True]
   \<and> map_sum id pin_count (CopyFirstFrom 2 (20, 102) 1 merge_pool)
        = Inr (pin_count merge_pool)
   \<and> map_sum (\<lambda>s. calls (snd s) = [] \<or> calls (snd s) = [Fetch 9]) calls
        (MoveAllTo 2 1 5 merge_pool) = Inl True
   \<and> map_sum (\<lambda>s. calls (snd s) = [] \<or> calls (snd s) = [Fetch 9]) calls
        (CopyLastFrom 2 (60, 201) merge_pool) = Inl True
   \<and> map_sum (\<lambda>s. calls (snd s) = [] \<or> calls (snd s) = [Fetch 9]) calls
        (CopyFirstFrom 2 (20, 102) 7 merge_pool) = Inl True"
proof -
  from merge_pool_returns(1) obtain b1 where r1: "MoveAllTo 2 1 1 merge_pool = Inr b1"
    using returns_some by blast
  from merge_pool_returns(2) obtain b2 where r2: "CopyLastFrom 1 (60, 201) merge_pool = Inr b2"
    using returns_some by blast
  from merge_pool_returns(3) obtain b3
    where r3: "CopyFirstFrom 2 (20, 102) 1 merge_pool = Inr b3"
    using returns_some by blast
  from merge_pool_stops(1) obtain e1 s1 where q1: "MoveAllTo 2 1 5 merge_pool = Inl (e1, s1)"
    using stops_some by blast
  from merge_pool_stops(2) obtain e2 s2
    where q2: "CopyLastFrom 2 (60, 201) merge_pool = Inl (e2, s2)"
    using stops_some by blast
  from merge_pool_stops(3) obtain e3 s3
    where q3: "CopyFirstFrom 2 (20, 102) 7 merge_pool = Inl (e3, s3)"
    using stops_some by blast
  note t = parent_pins_on_return_and_stop [OF merge_pool_wf]
  note c2 = conjunct2
  from t [THEN conjunct1, rule_format, OF r1]
  have "calls b1 = [Fetch 9, Unpin 9 True] \<and> pin_count b1 = pin_count merge_pool"
    by (auto simp: merge_pool_calls dest: merge_pool_parents)
  moreover
  from t [THEN c2, THEN conjunct1, rule_format, OF r2]
  have "calls b2 = [Fetch 9, Unpin 9 True] \<and> pin_count b2 = pin_count merge_pool"
    by (auto simp: merge_pool_calls dest: merge_pool_parents)
  moreover
  from t [THEN c2, THEN c2, THEN conjunct1, rule_format, OF r3]
  have "calls b3 = [Fetch 9, Unpin 9 True] \<and> pin_count b3 = pin_count merge_pool"
    by (auto simp: merge_pool_calls dest: merge_pool_parents)
  moreover
  from t [THEN c2, THEN c2, THEN c2, THEN conjunct1, rule_format, OF q1]
  have "calls s1 = [] \<or> calls s1 = [Fetch 9]"
    by (auto simp: merge_pool_calls dest: merge_pool_parents)
  moreover
  from t [THEN c2, THEN c2, THEN c2, THEN c2, THEN conjunct1, rule_format, OF q2]
  have "calls s2 = [] \<or> calls s2 = [Fetch 9]"
    by (auto simp: merge_pool_calls dest: merge_pool_parents)
  moreover
  from t [THEN c2, THEN c2, THEN c2, THEN c2, THEN c2, rule_format, OF q3]
  have "calls s3 = [] \<or> calls s3 = [Fetch 9]"
    by (auto simp: merge_pool_calls dest: merge_pool_parents)
  ultimately show ?thesis using r1 r2 r3 q1 q2 q3 by simp
qed

text \<open>
  Claim C9, as stated, fails on the exits that are not returns. With an index past the
  parent's last entry, \<open>MoveAllTo\<close> stops at the assertion of \<open>Remove\<close>;
  \<open>CopyLastFrom\<close> on the parent's last child and \<open>CopyFirstFrom\<close> with an index past
  the parent's last entry stop at the assertion of \<open>KeyAt\<close>. Each has fetched the parent
  page 9 by then and never unpins it: its pin count, 0 before the call, is 1 at the stop.
\<close>

theorem stop_after_fetch_leaves_parent_pinned:
  "map_sum (map_prod id calls) calls (MoveAllTo 2 1 5 merge_pool)
     = Inl (AssertionFailed, [Fetch 9])
   \<and> map_sum (map_prod id (page_pins 9)) (page_pins 9) (MoveAllTo 2 1 5 merge_pool)
       = Inl (AssertionFailed, 1)
   \<and> map_sum (map_prod id calls) calls (CopyLastFrom 2 (60, 201) merge_pool)
       = Inl (AssertionFailed, [Fetch 9])
   \<and> map_sum (map_prod id (page_pins 9)) (page_pins 9) (CopyLastFrom 2 (60, 201) merge_pool)
       = Inl (AssertionFailed, 1)
   \<and> map_sum (map_prod id calls) calls (CopyFirstFrom 2 (20, 102) 7 merge_pool)
       = Inl (AssertionFailed, [Fetch 9])
   \<and> map_sum (map_prod id (page_pins 9)) (page_pins 9)
        (CopyFirstFrom 2 (20, 102) 7 merge_pool)
       = Inl (AssertionFailed, 1)
   \<and> page_pins 9 merge_pool = 0"
  by code_simp

subsection \<open>Merge\<close>

text \<open>
  Claim C2. Page 2 (sentinel slot and the slot for 60) is merged into its left sibling,
  page 1 (sentinel slot and the slots for 10 and 20), and its separator, entry 1 of the
  parent, is removed. Page 1 should end with its three slots followed by slot 1 of page
  2, the pair (60, 201). The loop of \<open>CopyAllFrom\<close> starts at the size of the
  recipient, 3, and stops below the number of items, 1: it copies nothing, and the size
  grows by one over a slot that was never written.
\<close>

theorem MoveAllTo_appends_stale_slot:
  "map_sum id (page_slots 1) (MoveAllTo 2 1 1 merge_pool)
     = Inr (Some [(0, 100), (10, 101), (20, 102), (0, 0)])
   \<and> map_sum id (page_slots 9) (MoveAllTo 2 1 1 merge_pool) = Inr (Some [(0, 1)])"
  unfolding map_sum_fst_id [symmetric] by code_simp

subsection \<open>Split\<close>

text \<open>
  Claim C4, as stated, fails: after the split of page 1 into page 2, the slots of page
  2 refer to the children 102 and 103, whose parent page id is still 1.
\<close>

theorem MoveHalfTo_children_not_reparented:
  "map_sum id (page_slots 2) (MoveHalfTo 1 2 split_pool)
     = Inr (Some [(20, 102), (30, 103), (0, 0)])
   \<and> map_sum id (page_parent 102) (MoveHalfTo 1 2 split_pool) = Inr (Some 1)
   \<and> map_sum id (page_parent 103) (MoveHalfTo 1 2 split_pool) = Inr (Some 1)
   \<and> map_sum id (page_parent 102) (MoveHalfTo 1 2 split_pool) \<noteq> Inr (Some 2)"
  unfolding map_sum_fst_id [symmetric] by code_simp

lemma split_pool_returns: "\<not> isl (MoveHalfTo 1 2 split_pool)"
  by code_simp

theorem MoveHalfTo_keeps_parent_ids_witness:
  "map_sum id (page_parent 103) (MoveHalfTo 1 2 split_pool) = Inr (page_parent 103 split_pool)
   \<and> map_sum id calls (MoveHalfTo 1 2 split_pool) = Inr []
   \<and> map_sum id (page_slots 102) (MoveHalfTo 1 2 split_pool) = Inr (page_slots 102 split_pool)"
proof -
  from split_pool_returns obtain b' where r: "MoveHalfTo 1 2 split_pool = Inr b'"
    using returns_some by blast
  from MoveHalfTo_keeps_parent_ids [OF r] r show ?thesis
    by (simp add: split_pool_def mk_pool_def page_slots_def)
qed

text \<open>
  Claim C5. Page 1 has four slots, so the split moves two of them to the fresh page 2
  and leaves two. \<open>CopyHalfFrom\<close> writes the two slots from index 0 on, over the
  sentinel, and then adds their number to the size 1 of the fresh page: page 2 ends
  with size 3, not 2, its slot 2 never written.
\<close>

theorem MoveHalfTo_recipient_size:
  "map_sum id (page_size 2) (MoveHalfTo 1 2 split_pool) = Inr (Some 3)
   \<and> map_sum id (page_size 1) (MoveHalfTo 1 2 split_pool) = Inr (Some 2)
   \<and> map_sum id (page_slots 1) (MoveHalfTo 1 2 split_pool) = Inr (Some [(0, 100), (10, 101)])"
  unfolding map_sum_fst_id [symmetric] by code_simp

subsection \<open>Redistribute\<close>

text \<open>
  Claim C6. Page 2 (children 200, 201 and 202) gives its first child to its left
  sibling, page 1 (child 100). The sizes, the key of the appended slot (the former
  separator 50) and the new separator (60) are as the claim says, but the child that
  moves is that of slot 1, not of slot 0: child 201 ends in both pages and child 200
  in neither.
\<close>

theorem MoveFirstToEndOf_loses_first_child:
  "page_slots 2 borrow_pool = Some [(0, 200), (60, 201), (70, 202)]
   \<and> page_slots 1 borrow_pool = Some [(0, 100)]
   \<and> map_sum id (page_slots 2) (MoveFirstToEndOf 2 1 borrow_pool)
       = Inr (Some [(60, 201), (70, 202)])
   \<and> map_sum id (page_slots 1) (MoveFirstToEndOf 2 1 borrow_pool)
       = Inr (Some [(0, 100), (50, 201)])
   \<and> map_sum id (page_slots 9) (MoveFirstToEndOf 2 1 borrow_pool)
       = Inr (Some [(0, 1), (60, 2)])"
  unfolding map_sum_fst_id [symmetric] by code_simp

text \<open>
  The mirror operation keeps every child: when page 1 of the merge pool gives its last
  child to the front of page 2, the five children are the same before and after.
\<close>

lemma MoveLastToFrontOf_keeps_children:
  "map_sum id (page_slots 1) (MoveLastToFrontOf 1 2 1 merge_pool)
     = Inr (Some [(0, 100), (10, 101)])
   \<and> map_sum id (page_slots 2) (MoveLastToFrontOf 1 2 1 merge_pool)
       = Inr (Some [(0, 102), (50, 200), (60, 201)])
   \<and> map_sum id (page_slots 9) (MoveLastToFrontOf 1 2 1 merge_pool)
       = Inr (Some [(0, 1), (20, 2)])"
  unfolding map_sum_fst_id [symmetric] by code_simp

end
